theory Spec2Isabelle
  imports Complex_Main "HOL-Library.Word" "HOL-Library.Monad_Syntax"
begin

section \<open>Data model\<close>

text \<open>
  Byte strings (Python \<open>bytes\<close>, \<open>HexBytes\<close>) are lists of 8-bit words. Python \<open>str\<close>
  values are modelled by \<open>string\<close>, read as the UTF-8 bytes of the text: every test the
  source makes on text (\<open>"=" in value\<close>, \<open>startswith("0x")\<close>, \<open>endswith("[]")\<close>, equality)
  looks at ASCII characters only and gives the same answer on the UTF-8 bytes.
\<close>

type_synonym bytes = "8 word list"

text \<open>Exceptions of the source and of the libraries it calls, as values.\<close>

datatype error =
    RpcError            \<comment> \<open>a fetch from the node failed (block or receipt not available)\<close>
  | IndexError
  | KeyError
  | ValueError
  | TypeError
  | AttributeError
  | RuntimeError
  | StopIteration
  | UsageError string

definition bind_err :: "error + 'a \<Rightarrow> ('a \<Rightarrow> error + 'b) \<Rightarrow> error + 'b" where
  "bind_err r f = (case r of Inl e \<Rightarrow> Inl e | Inr x \<Rightarrow> f x)"

text \<open>
  A generator, run to its end: the items it yielded, in order, and how it ended
  (\<open>None\<close>: it returned; \<open>Some e\<close>: it raised \<open>e\<close> after the items).
\<close>

datatype 'a run = Run (yielded: "'a list") (ending: "error option")

definition prepend :: "'a list \<Rightarrow> 'a run \<Rightarrow> 'a run" where
  "prepend xs r = Run (xs @ yielded r) (ending r)"

record block =
  hash :: bytes
  parentHash :: bytes
  timestamp :: int
  transactions :: "bytes list"

record receipt =
  contractAddress :: "string option"
  from_address :: string
  to_address :: "string option"
  payload :: nat

text \<open>
  The node behind \<open>self.w3.eth\<close>: \<open>get_block('latest')\<close>, \<open>get_block(hash)\<close> and
  \<open>wait_for_transaction_receipt(hash)\<close>; \<open>None\<close> is a fetch that raises.
\<close>

record node =
  latest :: "block option"
  get_block :: "bytes \<Rightarrow> block option"
  wait_for_transaction_receipt :: "bytes \<Rightarrow> receipt option"

section \<open>Chain walker\<close>

text \<open>\<open>HexBytes('0x' + 64 zeros)\<close>: 32 zero bytes.\<close>

definition genesis_parent :: bytes where
  "genesis_parent = replicate 32 0"

text \<open>
  \<open>Eth.walk_blocks\<close> is a generator; its suspended states are: not started, and suspended
  at \<open>yield b\<close>. A fetched block is a non-empty mapping, so \<open>while b\<close> holds for it.
  \<open>walk_blocks_next\<close> is one \<open>next()\<close>: \<open>Inl e\<close> when it raises, \<open>Inr None\<close> when the
  generator stops, \<open>Inr (Some (b, s))\<close> when it yields \<open>b\<close> and suspends in \<open>s\<close>.
\<close>

datatype wb_state = WB_Start | WB_At block

fun walk_blocks_next :: "node \<Rightarrow> wb_state \<Rightarrow> error + (block \<times> wb_state) option" where
  "walk_blocks_next nd WB_Start =
     (case latest nd of
        None \<Rightarrow> Inl RpcError
      | Some b \<Rightarrow> Inr (Some (b, WB_At b)))"
| "walk_blocks_next nd (WB_At b) =
     (if parentHash b = genesis_parent then Inr None
      else case get_block nd (parentHash b) of
             None \<Rightarrow> Inl RpcError
           | Some b' \<Rightarrow> Inr (Some (b', WB_At b')))"

text \<open>Running the generator to its end; \<open>None\<close> when it never ends.\<close>

partial_function (option) walk_blocks_run :: "node \<Rightarrow> wb_state \<Rightarrow> block run option" where
  "walk_blocks_run nd s =
     (case walk_blocks_next nd s of
        Inl e \<Rightarrow> Some (Run [] (Some e))
      | Inr None \<Rightarrow> Some (Run [] None)
      | Inr (Some (b, s')) \<Rightarrow>
          do { r \<leftarrow> walk_blocks_run nd s'; Some (prepend [b] r) })"

declare walk_blocks_run.simps [code]

definition walk_blocks :: "node \<Rightarrow> block run option" where
  "walk_blocks nd = walk_blocks_run nd WB_Start"

text \<open>
  The list comprehension over \<open>block.transactions\<close>: every receipt of the block is
  fetched before any is yielded, and the first failing fetch raises.
\<close>

fun fetch_receipts :: "node \<Rightarrow> bytes list \<Rightarrow> error + receipt list" where
  "fetch_receipts nd [] = Inr []"
| "fetch_receipts nd (h # hs) =
     (case wait_for_transaction_receipt nd h of
        None \<Rightarrow> Inl RpcError
      | Some r \<Rightarrow>
          (case fetch_receipts nd hs of
             Inl e \<Rightarrow> Inl e
           | Inr rs \<Rightarrow> Inr (r # rs)))"

text \<open>\<open>limit and accum >= limit\<close>: \<open>None\<close> and \<open>0\<close> are both false in Python.\<close>

definition limit_reached :: "int option \<Rightarrow> int \<Rightarrow> bool" where
  "limit_reached limit accum =
     (case limit of
        None \<Rightarrow> False
      | Some l \<Rightarrow> l \<noteq> 0 \<and> accum \<ge> l)"

text \<open>
  \<open>Eth.walk_transactions\<close>: the \<open>for\<close> loop pulls one block at a time from the
  \<open>walk_blocks\<close> generator (state \<open>s\<close>), so a \<open>break\<close> leaves the rest of the chain
  unfetched.
\<close>

partial_function (option) walk_transactions_loop ::
    "node \<Rightarrow> int option \<Rightarrow> int \<Rightarrow> wb_state \<Rightarrow> receipt run option" where
  "walk_transactions_loop nd limit accum s =
     (case walk_blocks_next nd s of
        Inl e \<Rightarrow> Some (Run [] (Some e))
      | Inr None \<Rightarrow> Some (Run [] None)
      | Inr (Some (block, s')) \<Rightarrow>
          (case fetch_receipts nd (transactions block) of
             Inl e \<Rightarrow> Some (Run [] (Some e))
           | Inr txs \<Rightarrow>
               if limit_reached limit (accum + int (length txs)) then Some (Run txs None)
               else do {
                 r \<leftarrow> walk_transactions_loop nd limit (accum + int (length txs)) s';
                 Some (prepend txs r)
               }))"

declare walk_transactions_loop.simps [code]

definition walk_transactions :: "node \<Rightarrow> int option \<Rightarrow> receipt run option" where
  "walk_transactions nd limit = walk_transactions_loop nd limit 0 WB_Start"

subsection \<open>Well-formed chains\<close>

text \<open>
  \<open>chain_from nd bs\<close>: \<open>bs\<close> is a chain of the node, each block the parent of the one
  before it, ending at the genesis block (the one whose parent hash is the sentinel).
\<close>

fun chain_from :: "node \<Rightarrow> block list \<Rightarrow> bool" where
  "chain_from nd [] = False"
| "chain_from nd [g] = (parentHash g = genesis_parent)"
| "chain_from nd (b # b' # bs) =
     (parentHash b \<noteq> genesis_parent \<and> get_block nd (parentHash b) = Some b' \<and>
      chain_from nd (b' # bs))"

text \<open>
  \<open>pending nd s bs\<close>: in state \<open>s\<close> the blocks the generator has still to yield are
  \<open>bs\<close>, the last of them the genesis block.
\<close>

fun pending :: "node \<Rightarrow> wb_state \<Rightarrow> block list \<Rightarrow> bool" where
  "pending nd WB_Start bs = (bs \<noteq> [] \<and> latest nd = Some (hd bs) \<and> chain_from nd bs)"
| "pending nd (WB_At b) bs = chain_from nd (b # bs)"

text \<open>All receipts of the blocks, block order outside, in-block order inside.\<close>

fun receipts_of :: "node \<Rightarrow> block list \<Rightarrow> error + receipt list" where
  "receipts_of nd [] = Inr []"
| "receipts_of nd (b # bs) =
     (case fetch_receipts nd (transactions b) of
        Inl e \<Rightarrow> Inl e
      | Inr txs \<Rightarrow>
          (case receipts_of nd bs of
             Inl e \<Rightarrow> Inl e
           | Inr rs \<Rightarrow> Inr (txs @ rs)))"

text \<open>
  The running totals of transactions at the block boundaries of a chain: after the first
  block, after the second, and so on.
\<close>

fun boundary_counts :: "int \<Rightarrow> block list \<Rightarrow> int list" where
  "boundary_counts acc [] = []"
| "boundary_counts acc (b # bs) =
     (acc + int (length (transactions b))) #
     boundary_counts (acc + int (length (transactions b))) bs"

text \<open>
  The count the specification names: the smallest boundary count that is at least the
  limit, or the total when no boundary reaches the limit.
\<close>

definition smallest_boundary_count :: "int \<Rightarrow> block list \<Rightarrow> int" where
  "smallest_boundary_count l bs =
     (case filter (\<lambda>c. l \<le> c) (boundary_counts 0 bs) of
        [] \<Rightarrow> last (0 # boundary_counts 0 bs)
      | c # cs \<Rightarrow> Min (set (c # cs)))"

text \<open>The number of blocks whose receipts are yielded before the stop check succeeds.\<close>

fun blocks_walked :: "int option \<Rightarrow> int \<Rightarrow> block list \<Rightarrow> nat" where
  "blocks_walked limit acc [] = 0"
| "blocks_walked limit acc (b # bs) =
     (if limit_reached limit (acc + int (length (transactions b))) then 1
      else Suc (blocks_walked limit (acc + int (length (transactions b))) bs))"


section \<open>Python values and text\<close>

text \<open>
  The values that reach the argument coercer and the response normalizer. \<open>PDict\<close> is
  a plain \<open>dict\<close> and \<open>PAttributeDict\<close> a web3 \<open>AttributeDict\<close>, both as their
  items in insertion order; \<open>PBytes\<close> is a plain \<open>bytes\<close> and \<open>PHexBytes\<close> a
  \<open>HexBytes\<close>; \<open>PObj n\<close> stands for a value of any other type (a tuple, a float, an
  object), which the code only passes along.
\<close>

datatype pyval =
    PNone
  | PBool bool
  | PInt int
  | PStr string
  | PBytes bytes
  | PHexBytes bytes
  | PList "pyval list"
  | PDict "(pyval \<times> pyval) list"
  | PAttributeDict "(pyval \<times> pyval) list"
  | PObj nat

definition startswith :: "string \<Rightarrow> string \<Rightarrow> bool" where
  "startswith s p = (take (length p) s = p)"

definition endswith :: "string \<Rightarrow> string \<Rightarrow> bool" where
  "endswith s p = (length p \<le> length s \<and> drop (length s - length p) s = p)"

text \<open>ASCII lower case, for the case-insensitive comparison the specification names.\<close>

definition str_lower :: "string \<Rightarrow> string" where
  "str_lower s = map (\<lambda>c. if 65 \<le> (of_char c :: nat) \<and> (of_char c :: nat) \<le> 90
                            then char_of (of_char c + 32 :: nat) else c) s"

text \<open>\<open>s.split(c)\<close> for a one-character separator: one more part than separators.\<close>

fun str_split :: "char \<Rightarrow> string \<Rightarrow> string list" where
  "str_split c [] = [[]]"
| "str_split c (x # xs) =
     (if x = c then [] # str_split c xs
      else (case str_split c xs of
              [] \<Rightarrow> [[x]]
            | p # ps \<Rightarrow> (x # p) # ps))"

text \<open>Python indexing \<open>xs[i]\<close>: a negative index counts from the end.\<close>

definition py_index :: "'a list \<Rightarrow> int \<Rightarrow> error + 'a" where
  "py_index xs i =
     (if 0 \<le> i \<and> i < int (length xs) then Inr (xs ! nat i)
      else if i < 0 \<and> - i \<le> int (length xs) then Inr (xs ! nat (int (length xs) + i))
      else Inl IndexError)"

subsection \<open>\<open>int(text)\<close>\<close>

text \<open>
  Base-10 \<open>int()\<close> of a text, on ASCII input: surrounding whitespace is dropped, one sign
  is allowed, and single underscores may separate digits. (Python also reads the decimal
  digits and spaces of other scripts, and refuses a text of more digits than the
  interpreter is set to convert; such texts are outside this model.)
\<close>

definition is_space :: "char \<Rightarrow> bool" where
  "is_space c = (of_char c \<in> set [9, 10, 11, 12, 13, 28, 29, 30, 31, 32 :: nat])"

definition is_digit :: "char \<Rightarrow> bool" where
  "is_digit c = (48 \<le> (of_char c :: nat) \<and> (of_char c :: nat) \<le> 57)"

definition strip :: "string \<Rightarrow> string" where
  "strip s = rev (dropWhile is_space (rev (dropWhile is_space s)))"

fun parse_digits :: "bool \<Rightarrow> int \<Rightarrow> string \<Rightarrow> int option" where
  "parse_digits prev acc [] = (if prev then Some acc else None)"
| "parse_digits prev acc (c # cs) =
     (if is_digit c then parse_digits True (10 * acc + (of_char c - 48)) cs
      else if c = CHR ''_'' \<and> prev then parse_digits False acc cs
      else None)"

definition py_int :: "string \<Rightarrow> error + int" where
  "py_int s =
     (case strip s of
        [] \<Rightarrow> Inl ValueError
      | c # cs \<Rightarrow>
          if c = CHR ''-'' then
            (case parse_digits False 0 cs of None \<Rightarrow> Inl ValueError | Some n \<Rightarrow> Inr (- n))
          else if c = CHR ''+'' then
            (case parse_digits False 0 cs of None \<Rightarrow> Inl ValueError | Some n \<Rightarrow> Inr n)
          else
            (case parse_digits False 0 (c # cs) of None \<Rightarrow> Inl ValueError | Some n \<Rightarrow> Inr n))"

subsection \<open>\<open>bytes.fromhex\<close>, \<open>bytes.hex\<close> and UTF-8\<close>

definition hex_value :: "char \<Rightarrow> nat option" where
  "hex_value c =
     (let n = (of_char c :: nat) in
      if 48 \<le> n \<and> n \<le> 57 then Some (n - 48)
      else if 97 \<le> n \<and> n \<le> 102 then Some (n - 87)
      else if 65 \<le> n \<and> n \<le> 70 then Some (n - 55)
      else None)"

definition is_ascii_space :: "char \<Rightarrow> bool" where
  "is_ascii_space c = (of_char c \<in> set [9, 10, 11, 12, 13, 32 :: nat])"

text \<open>
  \<open>bytes.fromhex\<close>: two hexadecimal digits per byte, ASCII whitespace between bytes is
  skipped, anything else raises \<open>ValueError\<close>.
\<close>

fun fromhex :: "string \<Rightarrow> error + bytes" where
  "fromhex [] = Inr []"
| "fromhex [c] = (if is_ascii_space c then Inr [] else Inl ValueError)"
| "fromhex (c # d # cs) =
     (if is_ascii_space c then fromhex (d # cs)
      else (case (hex_value c, hex_value d) of
              (Some hi, Some lo) \<Rightarrow>
                (case fromhex cs of
                   Inl e \<Rightarrow> Inl e
                 | Inr bs \<Rightarrow> Inr (of_nat (16 * hi + lo) # bs))
            | _ \<Rightarrow> Inl ValueError))"

definition hex_char :: "nat \<Rightarrow> char" where
  "hex_char n = (if n < 10 then char_of (48 + n) else char_of (87 + n))"

text \<open>\<open>bytes.hex()\<close>: two lowercase hexadecimal digits per byte, no prefix.\<close>

definition bytes_hex :: "bytes \<Rightarrow> string" where
  "bytes_hex bs = concat (map (\<lambda>b. [hex_char (unat b div 16), hex_char (unat b mod 16)]) bs)"

text \<open>
  \<open>HexBytes.hex()\<close> of the hexbytes releases that web3 6 uses (the release that has the
  \<open>geth_poa_middleware\<close> the source imports): the same digits after \<open>0x\<close>.
\<close>

definition hexbytes_hex :: "bytes \<Rightarrow> string" where
  "hexbytes_hex bs = ''0x'' @ bytes_hex bs"

text \<open>\<open>w3.to_bytes(text=val)\<close>: the UTF-8 bytes of the text.\<close>

definition to_bytes :: "string \<Rightarrow> bytes" where
  "to_bytes s = map of_char s"




section \<open>Address history\<close>

text \<open>
  \<open>Eth.history\<close>: the receipts of \<open>walk_transactions\<close> in which the address is the
  created contract, the sender or the recipient. A generator expression: it ends as the
  generator it reads ends.
\<close>

definition history :: "node \<Rightarrow> string \<Rightarrow> int option \<Rightarrow> receipt run option" where
  "history nd address limit =
     do {
       r \<leftarrow> walk_transactions nd limit;
       Some (Run (filter (\<lambda>tx. Some address \<in>
                    set [contractAddress tx, Some (from_address tx), to_address tx])
                  (yielded r))
                 (ending r))
     }"

definition myhistory :: "node \<Rightarrow> string \<Rightarrow> int option \<Rightarrow> receipt run option" where
  "myhistory nd myaddress limit = history nd myaddress limit"

text \<open>
  The \<open>history\<close> argument of \<open>filter_contract\<close> and \<open>take_contracts\<close>: left out
  (\<open>None\<close>), or a generator, which is true in \<open>history or self.myhistory()\<close> whatever it
  yields.
\<close>

datatype history_arg = NoHistory | HistoryGen "receipt run option"

definition history_or_mine :: "node \<Rightarrow> string \<Rightarrow> history_arg \<Rightarrow> receipt run option" where
  "history_or_mine nd myaddress h =
     (case h of NoHistory \<Rightarrow> myhistory nd myaddress None | HistoryGen g \<Rightarrow> g)"

text \<open>\<open>if tx["contractAddress"]\<close>: neither \<open>None\<close> nor the empty text.\<close>

definition truthy_address :: "string option \<Rightarrow> bool" where
  "truthy_address a = (case a of None \<Rightarrow> False | Some s \<Rightarrow> s \<noteq> [])"

definition filter_contract :: "node \<Rightarrow> string \<Rightarrow> history_arg \<Rightarrow> receipt run option" where
  "filter_contract nd myaddress h =
     do {
       r \<leftarrow> history_or_mine nd myaddress h;
       Some (Run (filter (\<lambda>tx. truthy_address (contractAddress tx)) (yielded r)) (ending r))
     }"

definition take_contracts ::
    "node \<Rightarrow> string \<Rightarrow> history_arg \<Rightarrow> string option run option" where
  "take_contracts nd myaddress h =
     do {
       r \<leftarrow> filter_contract nd myaddress (HistoryGen (history_or_mine nd myaddress h));
       Some (Run (map contractAddress (yielded r)) (ending r))
     }"

section \<open>ABI argument coercer\<close>

text \<open>An entry of \<open>inputs\<close> or \<open>outputs\<close> of an ABI function.\<close>

record abi_input =
  name :: string
  type :: string

text \<open>
  \<open>ContractCallerArgs.coerce\<close>, with \<open>config.contractmethod.inputs\<close>, \<open>self.number\<close>
  and \<open>json.loads\<close> (of the standard library, a parameter here) as arguments. Its first
  statement, \<open>input_for\<close>, finds the input and the key: the first input named as a
  non-empty key, or else the input at position \<open>self.number - 1\<close>, whose name becomes
  the key.
\<close>

definition input_for :: "abi_input list \<Rightarrow> int \<Rightarrow> string \<Rightarrow> error + (abi_input \<times> string)" where
  "input_for inputs number key =
     (if key \<noteq> [] then
        (case filter (\<lambda>input. name input = key) inputs of
           [] \<Rightarrow> Inl IndexError
         | inp # _ \<Rightarrow> Inr (inp, key))
      else bind_err (py_index inputs (number - 1)) (\<lambda>inp. Inr (inp, name inp)))"

definition coerce ::
    "(string \<Rightarrow> error + pyval) \<Rightarrow> abi_input list \<Rightarrow> int \<Rightarrow> string \<Rightarrow> string \<Rightarrow>
     error + (string \<times> pyval)" where
  "coerce json_loads inputs number key val =
     bind_err (input_for inputs number key)
       (\<lambda>(inp, key).
          if endswith (type inp) ''[]'' then
            bind_err (json_loads val) (\<lambda>v. Inr (key, v))
          else if startswith (type inp) ''uint'' then
            bind_err (py_int val) (\<lambda>i. Inr (key, PInt i))
          else if type inp = ''bool'' then
            Inr (key, PBool (val \<in> set [''true'', ''True'', ''1'', ''t'', ''yes'']))
          else if startswith (type inp) ''byte'' then
            (if startswith val ''0x'' then
               bind_err (fromhex (drop 2 val)) (\<lambda>bs. Inr (key, PBytes bs))
             else Inr (key, PBytes (to_bytes val)))
          else Inr (key, PStr val))"

text \<open>
  What \<open>convert\<close> returns for a key and a value: a one-entry \<open>dict\<close> under a non-empty
  key, the bare value otherwise.
\<close>

definition as_argument :: "string \<times> pyval \<Rightarrow> error + pyval" where
  "as_argument kv = (case kv of (key, val) \<Rightarrow>
     Inr (if key \<noteq> [] then PDict [(PStr key, val)] else val))"

text \<open>
  \<open>ContractCallerArgs.convert\<close>: the new value of \<open>self.number\<close> and the result.
  \<open>key, val = value.split("=")\<close> raises \<open>ValueError\<close> unless the split has two parts.
\<close>

definition convert ::
    "(string \<Rightarrow> error + pyval) \<Rightarrow> abi_input list \<Rightarrow> int \<Rightarrow> string \<Rightarrow>
     int \<times> (error + pyval)" where
  "convert json_loads inputs number value =
     (let number = number + 1 in
      (number,
       bind_err
         (if CHR ''='' \<in> set value then
            (case str_split (CHR ''='') value of
               [key, val] \<Rightarrow> coerce json_loads inputs number key val
             | _ \<Rightarrow> Inl ValueError)
          else coerce json_loads inputs number [] value)
         as_argument))"


section \<open>Contract method\<close>

text \<open>
  Key equality of a \<open>dict\<close>: \<open>True\<close> and \<open>1\<close>, \<open>False\<close> and \<open>0\<close>, and a \<open>HexBytes\<close> and
  the \<open>bytes\<close> of the same content are one key. (A value of another type, \<open>PObj\<close>, is
  taken to equal only itself.)
\<close>

fun py_eq :: "pyval \<Rightarrow> pyval \<Rightarrow> bool" where
  "py_eq (PBool b) (PInt i) = (i = (if b then 1 else 0))"
| "py_eq (PInt i) (PBool b) = (i = (if b then 1 else 0))"
| "py_eq (PBytes a) (PHexBytes b) = (a = b)"
| "py_eq (PHexBytes a) (PBytes b) = (a = b)"
| "py_eq x y = (x = y)"

text \<open>\<open>d[k] = v\<close>: a key already there keeps its place and takes the new value.\<close>

fun dict_set :: "(pyval \<times> pyval) list \<Rightarrow> pyval \<Rightarrow> pyval \<Rightarrow> (pyval \<times> pyval) list" where
  "dict_set [] k v = [(k, v)]"
| "dict_set ((k', v') # d) k v =
     (if py_eq k' k then (k', v) # d else (k', v') # dict_set d k v)"

definition dict_update ::
    "(pyval \<times> pyval) list \<Rightarrow> (pyval \<times> pyval) list \<Rightarrow> (pyval \<times> pyval) list" where
  "dict_update d items = foldl (\<lambda>d (k, v). dict_set d k v) d items"

record abi_method =
  method_name :: "string option"
  inputs :: "abi_input list"
  outputs :: "abi_input list option"
  stateMutability :: string

text \<open>\<open>ContractMethod.abi\<close>: the first entry of \<open>config.eth.abi\<close> named as the function.\<close>

definition abi :: "abi_method list \<Rightarrow> string \<Rightarrow> error + abi_method" where
  "abi eth_abi fname =
     (case filter (\<lambda>method. method_name method = Some fname) eth_abi of
        [] \<Rightarrow> Inl IndexError
      | method # _ \<Rightarrow> Inr method)"

definition needed_names :: "abi_method \<Rightarrow> pyval set" where
  "needed_names m = set (map (\<lambda>input. PStr (name input))
                          (filter (\<lambda>input. name input \<noteq> []) (inputs m)))"

definition is_dict :: "pyval \<Rightarrow> bool" where
  "is_dict v = (case v of PDict _ \<Rightarrow> True | _ \<Rightarrow> False)"

definition args_positional :: "pyval list \<Rightarrow> pyval list" where
  "args_positional args = filter (\<lambda>arg. \<not> is_dict arg) args"

definition kwargs :: "pyval list \<Rightarrow> (pyval \<times> pyval) list" where
  "kwargs args =
     foldl (\<lambda>kw arg. case arg of PDict items \<Rightarrow> dict_update kw items | _ \<Rightarrow> kw)
       [] (filter is_dict args)"

definition given_names :: "pyval list \<Rightarrow> pyval set" where
  "given_names args = set (map fst (kwargs args))"

definition missing_names :: "abi_method \<Rightarrow> pyval list \<Rightarrow> pyval set" where
  "missing_names m args = needed_names m - given_names args"

text \<open>
  What a command does that can be seen from outside, in order. \<open>LogError names\<close> is the
  logged line \<open>You need to provide values for\<close> followed by the names of the set,
  separated by commas.
\<close>

datatype printed = Json pyval | Plain pyval

datatype event =
    LogError "pyval set"
  | Confirm string
  | ContractCall string "pyval list" "(pyval \<times> pyval) list"
  | ContractTransact string "pyval list" "(pyval \<times> pyval) list"
  | Print printed

datatype outcome = Returned | Exit nat | Raised error

text \<open>\<open>ContractMethod.check\<close>: what it logs and what it returns.\<close>

definition check :: "abi_method \<Rightarrow> pyval list \<Rightarrow> event list \<times> bool" where
  "check m args =
     (let missing_names = missing_names m args in
      if missing_names \<noteq> {} then ([LogError missing_names], False) else ([], True))"

text \<open>\<open>ContractMethod.coerce\<close>, on the value a call returned.\<close>

definition coerce_output :: "abi_method \<Rightarrow> pyval \<Rightarrow> error + pyval" where
  "coerce_output m output =
     (case outputs m of
        Some (out # _) \<Rightarrow>
          if type out = ''bytes32'' then
            (case output of
               PBytes bs \<Rightarrow> Inr (PStr (''0x'' @ bytes_hex bs))
             | PHexBytes bs \<Rightarrow> Inr (PStr (''0x'' @ hexbytes_hex bs))
             | _ \<Rightarrow> Inl AttributeError)
          else Inr output
      | _ \<Rightarrow> Inr output)"


section \<open>Response normalizer\<close>

text \<open>A list or a \<open>dict\<close> cannot be hashed, so it cannot become a key.\<close>

definition hashable :: "pyval \<Rightarrow> bool" where
  "hashable v = (case v of PList _ \<Rightarrow> False | PDict _ \<Rightarrow> False | _ \<Rightarrow> True)"

text \<open>
  \<open>make_serializable\<close> and \<open>serializable_dict\<close>. The dict comprehension is the loop
  \<open>serializable_items\<close>, which carries the new \<open>dict\<close> it fills; the list comprehension is
  \<open>serializable_elems\<close>. Storing under a key that cannot be hashed raises \<open>TypeError\<close>.
  (The interpreter's bound on the recursion depth is not modelled.)
\<close>

function make_serializable :: "pyval \<Rightarrow> error + pyval"
  and serializable_dict :: "(pyval \<times> pyval) list \<Rightarrow> error + pyval"
  and serializable_items ::
    "(pyval \<times> pyval) list \<Rightarrow> (pyval \<times> pyval) list \<Rightarrow> error + (pyval \<times> pyval) list"
  and serializable_elems :: "pyval list \<Rightarrow> error + pyval list" where
  "make_serializable (PAttributeDict data) = serializable_dict data"
| "make_serializable (PDict data) = serializable_dict data"
| "make_serializable (PHexBytes bs) = Inr (PStr (hexbytes_hex bs))"
| "make_serializable (PList elems) =
     (case serializable_elems elems of
        Inl e \<Rightarrow> Inl e
      | Inr xs \<Rightarrow> Inr (PList xs))"
| "make_serializable PNone = Inr PNone"
| "make_serializable (PBool b) = Inr (PBool b)"
| "make_serializable (PInt i) = Inr (PInt i)"
| "make_serializable (PStr t) = Inr (PStr t)"
| "make_serializable (PBytes bs) = Inr (PBytes bs)"
| "make_serializable (PObj n) = Inr (PObj n)"
| "serializable_dict data =
     (case serializable_items [] data of
        Inl e \<Rightarrow> Inl e
      | Inr d \<Rightarrow> Inr (PDict d))"
| "serializable_items d [] = Inr d"
| "serializable_items d ((key, value) # data) =
     (case make_serializable key of
        Inl e \<Rightarrow> Inl e
      | Inr k \<Rightarrow>
          (case make_serializable value of
             Inl e \<Rightarrow> Inl e
           | Inr v \<Rightarrow>
               if hashable k then serializable_items (dict_set d k v) data
               else Inl TypeError))"
| "serializable_elems [] = Inr []"
| "serializable_elems (elem # elems) =
     (case make_serializable elem of
        Inl e \<Rightarrow> Inl e
      | Inr x \<Rightarrow>
          (case serializable_elems elems of
             Inl e \<Rightarrow> Inl e
           | Inr xs \<Rightarrow> Inr (x # xs)))"
  by pat_completeness auto

termination
  by (relation "measure (\<lambda>x. case x of
         Inl (Inl v) \<Rightarrow> 2 * size v
       | Inl (Inr data) \<Rightarrow> 2 * size_list (size_prod size size) data + 1
       | Inr (Inl (d, data)) \<Rightarrow> 2 * size_list (size_prod size size) data
       | Inr (Inr elems) \<Rightarrow> 2 * size_list size elems)") auto



subsection \<open>The normalizer over a store of objects\<close>

text \<open>
  To say what \<open>make_serializable\<close> does to the objects it is given, the same function
  over an explicit store: an object is found through a reference (its index in the
  store), containers hold references, and a new object is put at the end of the store.
\<close>

type_synonym ref = nat

datatype obj =
    ONone
  | OBool bool
  | OInt int
  | OStr string
  | OBytes bytes
  | OHexBytes bytes
  | OList "ref list"
  | ODict "(ref \<times> ref) list"
  | OAttributeDict "(ref \<times> ref) list"
  | OObj nat

type_synonym store = "obj list"

definition alloc :: "store \<Rightarrow> obj \<Rightarrow> store \<times> ref" where
  "alloc s ob = (s @ [ob], length s)"

definition obj_at :: "store \<Rightarrow> ref \<Rightarrow> obj option" where
  "obj_at s r = (if r < length s then Some (s ! r) else None)"

text \<open>The value of an object that is not a container.\<close>

definition scalar_of :: "obj \<Rightarrow> pyval option" where
  "scalar_of ob =
     (case ob of
        ONone \<Rightarrow> Some PNone
      | OBool b \<Rightarrow> Some (PBool b)
      | OInt i \<Rightarrow> Some (PInt i)
      | OStr t \<Rightarrow> Some (PStr t)
      | OBytes bs \<Rightarrow> Some (PBytes bs)
      | OHexBytes bs \<Rightarrow> Some (PHexBytes bs)
      | OObj n \<Rightarrow> Some (PObj n)
      | _ \<Rightarrow> None)"

text \<open>Two keys are one key when they are the same object or equal values.\<close>

definition key_eq :: "store \<Rightarrow> ref \<Rightarrow> ref \<Rightarrow> bool" where
  "key_eq s k' k =
     (k' = k \<or>
      (case (Option.bind (obj_at s k') scalar_of, Option.bind (obj_at s k) scalar_of) of
         (Some a, Some b) \<Rightarrow> py_eq a b
       | _ \<Rightarrow> False))"

fun entries_set :: "store \<Rightarrow> (ref \<times> ref) list \<Rightarrow> ref \<Rightarrow> ref \<Rightarrow> (ref \<times> ref) list" where
  "entries_set s [] k v = [(k, v)]"
| "entries_set s ((k', v') # d) k v =
     (if key_eq s k' k then (k', v) # d else (k', v') # entries_set s d k v)"

text \<open>
  \<open>d[k] = v\<close> on the \<open>dict\<close> object \<open>d\<close>, in place: \<open>Some (Inl TypeError)\<close> when the key
  is a list or a \<open>dict\<close>, \<open>None\<close> when \<open>d\<close> is not a \<open>dict\<close> of the store or \<open>k\<close> not an
  object of it.
\<close>

definition store_dict_set :: "store \<Rightarrow> ref \<Rightarrow> ref \<Rightarrow> ref \<Rightarrow> (error + store) option" where
  "store_dict_set s d k v =
     (case (obj_at s d, obj_at s k) of
        (Some (ODict entries), Some (OList _)) \<Rightarrow> Some (Inl TypeError)
      | (Some (ODict entries), Some (ODict _)) \<Rightarrow> Some (Inl TypeError)
      | (Some (ODict entries), Some _) \<Rightarrow>
          Some (Inr (s[d := ODict (entries_set s entries k v)]))
      | _ \<Rightarrow> None)"

text \<open>\<open>l.append(x)\<close> on the list object \<open>l\<close>, in place.\<close>

definition store_list_append :: "store \<Rightarrow> ref \<Rightarrow> ref \<Rightarrow> store option" where
  "store_list_append s l x =
     (case obj_at s l of
        Some (OList elems) \<Rightarrow> Some (s[l := OList (elems @ [x])])
      | _ \<Rightarrow> None)"

definition items_of :: "store \<Rightarrow> ref \<Rightarrow> (ref \<times> ref) list option" where
  "items_of s r =
     (case obj_at s r of
        Some (ODict items) \<Rightarrow> Some items
      | Some (OAttributeDict items) \<Rightarrow> Some items
      | _ \<Rightarrow> None)"

definition elems_of :: "store \<Rightarrow> ref \<Rightarrow> ref list option" where
  "elems_of s r = (case obj_at s r of Some (OList elems) \<Rightarrow> Some elems | _ \<Rightarrow> None)"

text \<open>
  \<open>make_serializable_in n s data\<close> runs \<open>make_serializable(data)\<close> in the store \<open>s\<close> for
  at most \<open>n\<close> calls and loop steps. It returns the store afterwards and
  \<open>Some (Inr r)\<close> when the call returns the object \<open>r\<close>, \<open>Some (Inl e)\<close> when it raises,
  \<open>None\<close> when the run is cut off: out of steps, or at a reference without an object,
  which no program holds. The comprehensions are loops that read the container they
  walk from the store at every step (position \<open>i\<close>) and fill a new container in place;
  walking a \<open>dict\<close> whose size has changed raises \<open>RuntimeError\<close>.
\<close>

fun make_serializable_in :: "nat \<Rightarrow> store \<Rightarrow> ref \<Rightarrow> store \<times> (error + ref) option"
  and serializable_dict_loop ::
    "nat \<Rightarrow> store \<Rightarrow> ref \<Rightarrow> ref \<Rightarrow> nat \<Rightarrow> nat \<Rightarrow> store \<times> (error + ref) option"
  and serializable_list_loop ::
    "nat \<Rightarrow> store \<Rightarrow> ref \<Rightarrow> ref \<Rightarrow> nat \<Rightarrow> store \<times> (error + ref) option" where
  "make_serializable_in 0 s data = (s, None)"
| "make_serializable_in (Suc n) s data =
     (case obj_at s data of
        None \<Rightarrow> (s, None)
      | Some (OAttributeDict items) \<Rightarrow>
          (case alloc s (ODict []) of
             (s', d) \<Rightarrow> serializable_dict_loop n s' data d (length items) 0)
      | Some (ODict items) \<Rightarrow>
          (case alloc s (ODict []) of
             (s', d) \<Rightarrow> serializable_dict_loop n s' data d (length items) 0)
      | Some (OHexBytes bs) \<Rightarrow>
          (case alloc s (OStr (hexbytes_hex bs)) of (s', t) \<Rightarrow> (s', Some (Inr t)))
      | Some (OList elems) \<Rightarrow>
          (case alloc s (OList []) of (s', l) \<Rightarrow> serializable_list_loop n s' data l 0)
      | Some _ \<Rightarrow> (s, Some (Inr data)))"
| "serializable_dict_loop 0 s data d size0 i = (s, None)"
| "serializable_dict_loop (Suc n) s data d size0 i =
     (case items_of s data of
        None \<Rightarrow> (s, None)
      | Some items \<Rightarrow>
          if length items \<noteq> size0 then (s, Some (Inl RuntimeError))
          else if i \<ge> length items then (s, Some (Inr d))
          else
            (case make_serializable_in n s (fst (items ! i)) of
               (s1, Some (Inr k)) \<Rightarrow>
                 (case make_serializable_in n s1 (snd (items ! i)) of
                    (s2, Some (Inr v)) \<Rightarrow>
                      (case store_dict_set s2 d k v of
                         None \<Rightarrow> (s2, None)
                       | Some (Inl e) \<Rightarrow> (s2, Some (Inl e))
                       | Some (Inr s3) \<Rightarrow> serializable_dict_loop n s3 data d size0 (i + 1))
                  | (s2, stopped) \<Rightarrow> (s2, stopped))
             | (s1, stopped) \<Rightarrow> (s1, stopped)))"
| "serializable_list_loop 0 s data l i = (s, None)"
| "serializable_list_loop (Suc n) s data l i =
     (case elems_of s data of
        None \<Rightarrow> (s, None)
      | Some elems \<Rightarrow>
          if i \<ge> length elems then (s, Some (Inr l))
          else
            (case make_serializable_in n s (elems ! i) of
               (s1, Some (Inr x)) \<Rightarrow>
                 (case store_list_append s1 l x of
                    None \<Rightarrow> (s1, None)
                  | Some s2 \<Rightarrow> serializable_list_loop n s2 data l (i + 1))
             | (s1, stopped) \<Rightarrow> (s1, stopped)))"

text \<open>
  \<open>kept P s s'\<close>: \<open>s'\<close> has every object of \<open>s\<close> whose reference satisfies \<open>P\<close> as it
  was, and no fewer objects.
\<close>

definition kept :: "(ref \<Rightarrow> bool) \<Rightarrow> store \<Rightarrow> store \<Rightarrow> bool" where
  "kept P s s' = (length s \<le> length s' \<and> (\<forall>a<length s. P a \<longrightarrow> s' ! a = s ! a))"

definition list_at :: "store \<Rightarrow> ref \<Rightarrow> ref list option" where
  "list_at s r = (case obj_at s r of Some (OList es) \<Rightarrow> Some es | _ \<Rightarrow> None)"

definition dict_at :: "store \<Rightarrow> ref \<Rightarrow> (ref \<times> ref) list option" where
  "dict_at s r = (case obj_at s r of Some (ODict items) \<Rightarrow> Some items | _ \<Rightarrow> None)"

definition attributedict_at :: "store \<Rightarrow> ref \<Rightarrow> (ref \<times> ref) list option" where
  "attributedict_at s r =
     (case obj_at s r of Some (OAttributeDict items) \<Rightarrow> Some items | _ \<Rightarrow> None)"

text \<open>
  \<open>repr A s r v\<close>: the object \<open>r\<close> of the store \<open>s\<close> stands for the value \<open>v\<close>, and
  every object read on the way has a reference that satisfies \<open>A\<close>.
\<close>

function (sequential) repr :: "(ref \<Rightarrow> bool) \<Rightarrow> store \<Rightarrow> ref \<Rightarrow> pyval \<Rightarrow> bool"
  and repr_items :: "(ref \<Rightarrow> bool) \<Rightarrow> store \<Rightarrow> (ref \<times> ref) list \<Rightarrow> (pyval \<times> pyval) list \<Rightarrow> bool"
  and repr_list :: "(ref \<Rightarrow> bool) \<Rightarrow> store \<Rightarrow> ref list \<Rightarrow> pyval list \<Rightarrow> bool" where
  "repr A s r (PList xs) =
     (A r \<and> (case list_at s r of Some es \<Rightarrow> repr_list A s es xs | None \<Rightarrow> False))"
| "repr A s r (PDict kvs) =
     (A r \<and> (case dict_at s r of Some items \<Rightarrow> repr_items A s items kvs | None \<Rightarrow> False))"
| "repr A s r (PAttributeDict kvs) =
     (A r \<and> (case attributedict_at s r of
               Some items \<Rightarrow> repr_items A s items kvs
             | None \<Rightarrow> False))"
| "repr A s r PNone = (A r \<and> obj_at s r = Some ONone)"
| "repr A s r (PBool b) = (A r \<and> obj_at s r = Some (OBool b))"
| "repr A s r (PInt i) = (A r \<and> obj_at s r = Some (OInt i))"
| "repr A s r (PStr t) = (A r \<and> obj_at s r = Some (OStr t))"
| "repr A s r (PBytes bs) = (A r \<and> obj_at s r = Some (OBytes bs))"
| "repr A s r (PHexBytes bs) = (A r \<and> obj_at s r = Some (OHexBytes bs))"
| "repr A s r (PObj n) = (A r \<and> obj_at s r = Some (OObj n))"
| "repr_items A s [] [] = True"
| "repr_items A s ((k, v) # items) ((a, b) # kvs) =
     (repr A s k a \<and> repr A s v b \<and> repr_items A s items kvs)"
| "repr_items A s [] (kv # kvs) = False"
| "repr_items A s (item # items) [] = False"
| "repr_list A s [] [] = True"
| "repr_list A s (e # es) (x # xs) = (repr A s e x \<and> repr_list A s es xs)"
| "repr_list A s [] (x # xs) = False"
| "repr_list A s (e # es) [] = False"
  by pat_completeness auto

termination
  by (relation "measure (\<lambda>x. case x of
         Inl (A, s, r, v) \<Rightarrow> size v
       | Inr (Inl (A, s, items, kvs)) \<Rightarrow> size_list (size_prod size size) kvs
       | Inr (Inr (A, s, es, xs)) \<Rightarrow> size_list size xs)") auto

text \<open>A number of calls and loop steps that suffices to normalize a value.\<close>

function cost :: "pyval \<Rightarrow> nat"
  and cost_items :: "(pyval \<times> pyval) list \<Rightarrow> nat"
  and cost_elems :: "pyval list \<Rightarrow> nat" where
  "cost (PList xs) = Suc (cost_elems xs)"
| "cost (PDict kvs) = Suc (cost_items kvs)"
| "cost (PAttributeDict kvs) = Suc (cost_items kvs)"
| "cost PNone = 1"
| "cost (PBool b) = 1"
| "cost (PInt i) = 1"
| "cost (PStr t) = 1"
| "cost (PBytes bs) = 1"
| "cost (PHexBytes bs) = 1"
| "cost (PObj n) = 1"
| "cost_items [] = 1"
| "cost_items ((k, v) # kvs) = Suc (cost k + cost v + cost_items kvs)"
| "cost_elems [] = 1"
| "cost_elems (x # xs) = Suc (cost x + cost_elems xs)"
  by pat_completeness auto

termination
  by (relation "measure (\<lambda>x. case x of
         Inl v \<Rightarrow> size v
       | Inr (Inl kvs) \<Rightarrow> size_list (size_prod size size) kvs
       | Inr (Inr xs) \<Rightarrow> size_list size xs)") auto

text \<open>A value that is not a container.\<close>

definition atomic :: "pyval \<Rightarrow> bool" where
  "atomic v = (case v of PList _ \<Rightarrow> False | PDict _ \<Rightarrow> False | PAttributeDict _ \<Rightarrow> False | _ \<Rightarrow> True)"

text \<open>
  That a run in the store agrees with the result on values: the same exception, or a
  reference that stands for the value returned (for the loops: the container being
  filled stands for the items or elements so far).
\<close>

definition agrees :: "(ref \<Rightarrow> bool) \<Rightarrow> error + pyval \<Rightarrow> store \<times> (error + ref) option \<Rightarrow> bool" where
  "agrees A pure run =
     (case run of (s', res) \<Rightarrow>
        (case pure of
           Inl e \<Rightarrow> res = Some (Inl e)
         | Inr y \<Rightarrow> (\<exists>r. res = Some (Inr r) \<and> repr A s' r y)))"

definition agrees_items ::
    "ref \<Rightarrow> (ref \<Rightarrow> bool) \<Rightarrow> error + (pyval \<times> pyval) list \<Rightarrow> store \<times> (error + ref) option \<Rightarrow> bool" where
  "agrees_items d A pure run =
     (case run of (s', res) \<Rightarrow>
        (case pure of
           Inl e \<Rightarrow> res = Some (Inl e)
         | Inr final \<Rightarrow>
             res = Some (Inr d) \<and>
             (\<exists>entries. obj_at s' d = Some (ODict entries) \<and> repr_items A s' entries final)))"

definition agrees_elems ::
    "ref \<Rightarrow> ref list \<Rightarrow> (ref \<Rightarrow> bool) \<Rightarrow> error + pyval list \<Rightarrow>
     store \<times> (error + ref) option \<Rightarrow> bool" where
  "agrees_elems l built A pure run =
     (case run of (s', res) \<Rightarrow>
        (case pure of
           Inl e \<Rightarrow> res = Some (Inl e)
         | Inr ys \<Rightarrow>
             res = Some (Inr l) \<and>
             (\<exists>new. obj_at s' l = Some (OList (built @ new)) \<and> repr_list A s' new ys)))"


section \<open>Method invocation\<close>

text \<open>
  What the outside answers during one command: the operator's answer to
  \<open>click.confirm\<close>, and what the contract call and the transaction (sent, then waited
  for) return or raise.
\<close>

record contract_env =
  confirm_answer :: bool
  call_returns :: "error + pyval"
  transact_returns :: "error + pyval"

text \<open>\<open>ContractMethod.call\<close> and \<open>ContractMethod.transact\<close>.\<close>

definition cm_call ::
    "contract_env \<Rightarrow> abi_method \<Rightarrow> string \<Rightarrow> pyval list \<Rightarrow> event list \<times> (error + pyval)" where
  "cm_call env m fname args =
     ([ContractCall fname (args_positional args) (kwargs args)],
      bind_err (call_returns env) (coerce_output m))"

definition cm_transact ::
    "contract_env \<Rightarrow> string \<Rightarrow> pyval list \<Rightarrow> event list \<times> (error + pyval)" where
  "cm_transact env fname args =
     ([ContractTransact fname (args_positional args) (kwargs args)], transact_returns env)"

text \<open>
  The command \<open>_call\<close>, with the \<open>--transact/--no-transact\<close> flag (\<open>None\<close> when neither
  is given): the events in order, and how the command ends.
\<close>

definition call_command ::
    "contract_env \<Rightarrow> abi_method list \<Rightarrow> string \<Rightarrow> pyval list \<Rightarrow> bool option \<Rightarrow>
     event list \<times> outcome" where
  "call_command env eth_abi fname args transact =
     (case abi eth_abi fname of
        Inl e \<Rightarrow> ([], Raised e)
      | Inr m \<Rightarrow>
          (case check m args of
             (logged, False) \<Rightarrow> (logged, Exit 1)
           | (logged, True) \<Rightarrow>
               (case (case transact of
                        None \<Rightarrow> ([], stateMutability m \<noteq> ''view'')
                      | Some False \<Rightarrow> ([], False)
                      | Some True \<Rightarrow>
                          if stateMutability m \<noteq> ''view'' then ([], True)
                          else ([Confirm ''Transacting a view. Are you sure?''],
                                confirm_answer env)) of
                  (asked, True) \<Rightarrow>
                    (case cm_transact env fname args of
                       (sent, Inl e) \<Rightarrow> (logged @ asked @ sent, Raised e)
                     | (sent, Inr tx_receipt) \<Rightarrow>
                         (case make_serializable tx_receipt of
                            Inl e \<Rightarrow> (logged @ asked @ sent, Raised e)
                          | Inr v \<Rightarrow> (logged @ asked @ sent @ [Print (Json v)], Returned)))
                | (asked, False) \<Rightarrow>
                    (case cm_call env m fname args of
                       (sent, Inl e) \<Rightarrow> (logged @ asked @ sent, Raised e)
                     | (sent, Inr output) \<Rightarrow>
                         (logged @ asked @ sent @ [Print (Plain output)], Returned)))))"

section \<open>Moving the chain clock\<close>





section \<open>Example inputs\<close>

text \<open>A chain of three blocks with three transactions, the newest block first.\<close>

definition ex_genesis :: block where
  "ex_genesis = \<lparr>hash = [0x0A], parentHash = genesis_parent, timestamp = 1000,
     transactions = []\<rparr>"

definition ex_block1 :: block where
  "ex_block1 = \<lparr>hash = [0x0B], parentHash = [0x0A], timestamp = 1010,
     transactions = [[1]]\<rparr>"

definition ex_block2 :: block where
  "ex_block2 = \<lparr>hash = [0x0C], parentHash = [0x0B], timestamp = 1020,
     transactions = [[2], [3]]\<rparr>"

definition ex_receipt1 :: receipt where
  "ex_receipt1 = \<lparr>contractAddress = None, from_address = ''0xA1'',
     to_address = Some ''0xB2'', payload = 1\<rparr>"

definition ex_receipt2 :: receipt where
  "ex_receipt2 = \<lparr>contractAddress = Some ''0xC3'', from_address = ''0xA1'',
     to_address = None, payload = 2\<rparr>"

definition ex_receipt3 :: receipt where
  "ex_receipt3 = \<lparr>contractAddress = None, from_address = ''0xB2'',
     to_address = Some ''0xA1'', payload = 3\<rparr>"

definition ex_node :: node where
  "ex_node = \<lparr>latest = Some ex_block2,
     get_block = map_of [([0x0A], ex_genesis), ([0x0B], ex_block1), ([0x0C], ex_block2)],
     wait_for_transaction_receipt =
       map_of [([1], ex_receipt1), ([2], ex_receipt2), ([3], ex_receipt3)]\<rparr>"

definition ex_chain :: "block list" where
  "ex_chain = [ex_block2, ex_block1, ex_genesis]"

text \<open>A function \<open>f(uint256 a, uint256 b)\<close> that changes state, and a view \<open>g(bool ok)\<close>.\<close>

definition ex_inputs :: "abi_input list" where
  "ex_inputs = [\<lparr>name = ''a'', type = ''uint256''\<rparr>, \<lparr>name = ''b'', type = ''uint256''\<rparr>]"

definition ex_bool_inputs :: "abi_input list" where
  "ex_bool_inputs = [\<lparr>name = ''ok'', type = ''bool''\<rparr>]"

definition ex_typed_inputs :: "abi_input list" where
  "ex_typed_inputs = [\<lparr>name = ''n'', type = ''uint256''\<rparr>, \<lparr>name = ''h'', type = ''bytes32''\<rparr>,
                      \<lparr>name = ''xs'', type = ''uint256[]''\<rparr>, \<lparr>name = ''to'', type = ''address''\<rparr>]"

definition ex_abi :: "abi_method list" where
  "ex_abi = [\<lparr>method_name = Some ''f'', inputs = ex_inputs, outputs = Some [],
               stateMutability = ''nonpayable''\<rparr>,
             \<lparr>method_name = Some ''g'', inputs = [\<lparr>name = ''ok'', type = ''bool''\<rparr>],
               outputs = Some [\<lparr>name = [], type = ''bytes32''\<rparr>],
               stateMutability = ''view''\<rparr>]"

definition ex_env :: contract_env where
  "ex_env = \<lparr>confirm_answer = False, call_returns = Inr (PBytes [0xAB, 0xCD]),
     transact_returns = Inr (PAttributeDict [(PStr ''transactionHash'', PHexBytes [0x01])])\<rparr>"



text \<open>A stand-in for \<open>json.loads\<close> that reads two literals.\<close>

definition ex_json_loads :: "string \<Rightarrow> error + pyval" where
  "ex_json_loads s =
     (if s = ''[1, 2]'' then Inr (PList [PInt 1, PInt 2])
      else if s = ''[]'' then Inr (PList [])
      else Inl ValueError)"


section \<open>Properties of the chain walker\<close>

lemma pending_Nil: "pending nd s [] \<Longrightarrow> walk_blocks_next nd s = Inr None"
  by (cases s) auto

lemma pending_Cons:
  "pending nd s (b # bs) \<Longrightarrow>
   walk_blocks_next nd s = Inr (Some (b, WB_At b)) \<and> pending nd (WB_At b) bs"
  by (cases s) auto

lemma walk_blocks_run_pending:
  "pending nd s bs \<Longrightarrow> walk_blocks_run nd s = Some (Run bs None)"
proof (induction bs arbitrary: s)
  case Nil
  then show ?case
    by (subst walk_blocks_run.simps) (simp add: pending_Nil)
next
  case (Cons b bs)
  from pending_Cons [OF Cons.prems]
  have step: "walk_blocks_next nd s = Inr (Some (b, WB_At b))"
    and rest: "pending nd (WB_At b) bs" by simp_all
  from Cons.IH [OF rest] step show ?case
    by (subst walk_blocks_run.simps) (simp add: prepend_def)
qed

lemma chain_from_last: "chain_from nd (ns @ [g]) \<Longrightarrow> parentHash g = genesis_parent"
proof (induction ns)
  case Nil
  then show ?case by simp
next
  case (Cons b ns)
  then show ?case by (cases "ns @ [g]") auto
qed

text \<open>
  Claim C3. On a chain of N blocks \<open>ns\<close> followed by the genesis block \<open>g\<close>, whose head
  is the latest block of the node, \<open>walk_blocks\<close> ends, and it yields exactly the N+1
  blocks of the chain, from the head along the parent hashes to the genesis block, and
  nothing after it.
\<close>

theorem walk_blocks_reaches_genesis:
  assumes "chain_from nd (ns @ [g])" and "latest nd = Some (hd (ns @ [g]))"
  shows "walk_blocks nd = Some (Run (ns @ [g]) None) \<and>
         length (ns @ [g]) = length ns + 1 \<and>
         last (ns @ [g]) = g \<and> parentHash g = genesis_parent"
proof -
  from assms have "pending nd WB_Start (ns @ [g])" by simp
  then have "walk_blocks nd = Some (Run (ns @ [g]) None)"
    unfolding walk_blocks_def by (rule walk_blocks_run_pending)
  moreover from assms(1) have "parentHash g = genesis_parent"
    by (rule chain_from_last)
  ultimately show ?thesis by simp
qed

theorem walk_blocks_reaches_genesis_witness:
  "chain_from ex_node ([ex_block2, ex_block1] @ [ex_genesis]) \<and>
   latest ex_node = Some (hd ([ex_block2, ex_block1] @ [ex_genesis])) \<and>
   walk_blocks ex_node = Some (Run [ex_block2, ex_block1, ex_genesis] None)"
proof -
  have c: "chain_from ex_node ([ex_block2, ex_block1] @ [ex_genesis])"
    by code_simp
  have l: "latest ex_node = Some (hd ([ex_block2, ex_block1] @ [ex_genesis]))"
    by code_simp
  from walk_blocks_reaches_genesis [OF c l] c l show ?thesis by simp
qed

lemma fetch_receipts_length:
  "fetch_receipts nd hs = Inr rs \<Longrightarrow> length rs = length hs"
  by (induction hs arbitrary: rs) (auto split: option.splits sum.splits)

lemma receipts_of_length:
  "receipts_of nd bs = Inr rs \<Longrightarrow>
   int (length rs) = (\<Sum>b\<leftarrow>bs. int (length (transactions b)))"
  by (induction bs arbitrary: rs)
     (auto split: sum.splits dest: fetch_receipts_length)

lemma walk_transactions_loop_pending:
  assumes "pending nd s bs" and "receipts_of nd bs = Inr rs"
  shows "\<exists>ys. receipts_of nd (take (blocks_walked limit acc bs) bs) = Inr ys \<and>
    walk_transactions_loop nd limit acc s = Some (Run ys None)"
  using assms
proof (induction bs arbitrary: s acc rs)
  case Nil
  then show ?case
    by (subst walk_transactions_loop.simps) (simp add: pending_Nil)
next
  case (Cons b bs)
  from Cons.prems obtain txs rs' where
    txs: "fetch_receipts nd (transactions b) = Inr txs" and
    rs': "receipts_of nd bs = Inr rs'"
    by (auto split: sum.splits)
  from pending_Cons [OF Cons.prems(1)]
  have step: "walk_blocks_next nd s = Inr (Some (b, WB_At b))"
    and rest: "pending nd (WB_At b) bs" by simp_all
  have len: "length txs = length (transactions b)"
    using txs by (rule fetch_receipts_length)
  show ?case
  proof (cases "limit_reached limit (acc + int (length (transactions b)))")
    case True
    then show ?thesis using step txs len
      by (subst walk_transactions_loop.simps) simp
  next
    case False
    from Cons.IH [OF rest rs', of "acc + int (length (transactions b))"]
    obtain ys where ys: "receipts_of nd
         (take (blocks_walked limit (acc + int (length (transactions b))) bs) bs) = Inr ys"
      "walk_transactions_loop nd limit (acc + int (length (transactions b))) (WB_At b)
         = Some (Run ys None)"
      by blast
    show ?thesis using False step txs len ys
      by (subst walk_transactions_loop.simps) (simp add: prepend_def)
  qed
qed

lemma boundary_counts_ge: "c \<in> set (boundary_counts acc bs) \<Longrightarrow> acc \<le> c"
  by (induction bs arbitrary: acc) force+

lemma sorted_boundary_counts: "sorted (boundary_counts acc bs)"
  by (induction bs arbitrary: acc) (force dest: boundary_counts_ge)+

lemma blocks_walked_None: "blocks_walked None acc bs = length bs"
  by (induction bs arbitrary: acc) (auto simp: limit_reached_def)

lemma blocks_walked_le: "blocks_walked limit acc bs \<le> length bs"
  by (induction bs arbitrary: acc) auto

lemma blocks_walked_bounds:
  "bs \<noteq> [] \<Longrightarrow> 0 < blocks_walked limit acc bs \<and> blocks_walked limit acc bs \<le> length bs"
  by (cases bs) (simp_all add: blocks_walked_le)

lemma blocks_walked_count:
  "l \<noteq> 0 \<Longrightarrow>
   acc + (\<Sum>b\<leftarrow>take (blocks_walked (Some l) acc bs) bs. int (length (transactions b))) =
     (case filter (\<lambda>c. l \<le> c) (boundary_counts acc bs) of
        [] \<Rightarrow> last (acc # boundary_counts acc bs)
      | c # cs \<Rightarrow> c)"
proof (induction bs arbitrary: acc)
  case Nil
  then show ?case by simp
next
  case (Cons b bs)
  show ?case
  proof (cases "limit_reached (Some l) (acc + int (length (transactions b)))")
    case True
    then show ?thesis by (simp add: limit_reached_def)
  next
    case False
    with Cons.prems have "\<not> l \<le> acc + int (length (transactions b))"
      by (simp add: limit_reached_def)
    with False Cons.IH [OF Cons.prems, of "acc + int (length (transactions b))"]
    show ?thesis by (simp add: add.assoc cong: list.case_cong)
  qed
qed

lemma blocks_walked_excess:
  "l \<noteq> 0 \<Longrightarrow> acc < l \<Longrightarrow>
   l \<le> acc + (\<Sum>b\<leftarrow>take (blocks_walked (Some l) acc bs) bs. int (length (transactions b))) \<Longrightarrow>
   \<exists>b\<in>set bs.
     acc + (\<Sum>b\<leftarrow>take (blocks_walked (Some l) acc bs) bs. int (length (transactions b)))
       < l + int (length (transactions b))"
proof (induction bs arbitrary: acc)
  case Nil
  then show ?case by simp
next
  case (Cons b bs)
  show ?case
  proof (cases "limit_reached (Some l) (acc + int (length (transactions b)))")
    case True
    with Cons.prems(2) show ?thesis by simp
  next
    case False
    with Cons.prems(1) have lt: "acc + int (length (transactions b)) < l"
      by (simp add: limit_reached_def)
    from False Cons.prems(3) have
      "l \<le> acc + int (length (transactions b)) +
         (\<Sum>b\<leftarrow>take (blocks_walked (Some l) (acc + int (length (transactions b))) bs) bs.
            int (length (transactions b)))"
      by (simp add: add.assoc)
    from Cons.IH [OF Cons.prems(1) lt this] False show ?thesis
      by (auto simp: add.assoc)
  qed
qed

lemma Min_sorted_Cons: "sorted (c # cs) \<Longrightarrow> Min (set (c # cs)) = c"
  by (auto intro!: Min_eqI)

lemma smallest_boundary_count_eq:
  "smallest_boundary_count l bs =
     (case filter (\<lambda>c. l \<le> c) (boundary_counts 0 bs) of
        [] \<Rightarrow> last (0 # boundary_counts 0 bs)
      | c # cs \<Rightarrow> c)"
proof -
  have "sorted (filter (\<lambda>c. l \<le> c) (boundary_counts 0 bs))"
    using sorted_boundary_counts by (rule sorted_wrt_filter)
  then show ?thesis
    unfolding smallest_boundary_count_def
    by (cases "filter (\<lambda>c. l \<le> c) (boundary_counts 0 bs)")
       (simp_all only: list.case Min_sorted_Cons)
qed

text \<open>
  Claim C1, as amended. On a chain that reaches the genesis block and whose receipts can
  all be fetched, \<open>walk_transactions\<close> with a limit of at least 1 ends, and it yields the
  receipts of the first \<open>k\<close> blocks, whole blocks only; their number is the smallest
  running total at a block boundary that is at least the limit, or the total of the chain
  when no boundary reaches the limit; when it reaches the limit it exceeds it by less
  than the transaction count of one block. With no limit it yields every receipt.
\<close>

theorem walk_transactions_stops_at_block_boundary:
  assumes "chain_from nd bs" and "latest nd = Some (hd bs)"
    and "receipts_of nd bs = Inr rs" and "1 \<le> l"
  shows "(\<exists>ys k. walk_transactions nd (Some l) = Some (Run ys None) \<and>
            0 < k \<and> k \<le> length bs \<and> receipts_of nd (take k bs) = Inr ys \<and>
            int (length ys) = smallest_boundary_count l bs \<and>
            (l \<le> int (length ys) \<longrightarrow>
               (\<exists>b\<in>set bs. int (length ys) < l + int (length (transactions b))))) \<and>
         walk_transactions nd None = Some (Run rs None)"
proof -
  from assms(1) have ne: "bs \<noteq> []" by (cases bs) auto
  with assms(1,2) have p: "pending nd WB_Start bs" by simp
  let ?k = "blocks_walked (Some l) 0 bs"
  from walk_transactions_loop_pending [OF p assms(3), of "Some l" 0]
  obtain ys where ys: "receipts_of nd (take ?k bs) = Inr ys"
    and run: "walk_transactions nd (Some l) = Some (Run ys None)"
    unfolding walk_transactions_def by blast
  have len: "int (length ys) = (\<Sum>b\<leftarrow>take ?k bs. int (length (transactions b)))"
    using ys by (rule receipts_of_length)
  from assms(4) have l0: "l \<noteq> 0" and pos: "(0::int) < l" by simp_all
  have count: "int (length ys) = smallest_boundary_count l bs"
    using blocks_walked_count [OF l0, of 0 bs] len
    by (simp add: smallest_boundary_count_eq)
  have excess: "l \<le> int (length ys) \<longrightarrow>
      (\<exists>b\<in>set bs. int (length ys) < l + int (length (transactions b)))"
    using blocks_walked_excess [OF l0 pos, of bs] len by simp
  from walk_transactions_loop_pending [OF p assms(3), of None 0] assms(3)
  have all: "walk_transactions nd None = Some (Run rs None)"
    unfolding walk_transactions_def by (simp add: blocks_walked_None)
  from run ys count excess blocks_walked_bounds [OF ne, of "Some l" 0] all
  show ?thesis by blast
qed

theorem walk_transactions_stops_at_block_boundary_witness:
  "chain_from ex_node ex_chain \<and> latest ex_node = Some (hd ex_chain) \<and>
   receipts_of ex_node ex_chain = Inr [ex_receipt2, ex_receipt3, ex_receipt1] \<and>
   (1::int) \<le> 1 \<and>
   int (length (yielded (the (walk_transactions ex_node (Some 1))))) =
     smallest_boundary_count 1 ex_chain \<and>
   walk_transactions ex_node None =
     Some (Run [ex_receipt2, ex_receipt3, ex_receipt1] None)"
proof -
  have c: "chain_from ex_node ex_chain" by code_simp
  have h: "latest ex_node = Some (hd ex_chain)" by code_simp
  have r: "receipts_of ex_node ex_chain = Inr [ex_receipt2, ex_receipt3, ex_receipt1]"
    by code_simp
  have l: "(1::int) \<le> 1" by simp
  from walk_transactions_stops_at_block_boundary [OF c h r l] c h r
  show ?thesis by auto
qed

text \<open>
  Claim C1 as stated fails at limit 0: \<open>limit and accum >= limit\<close> is false for the
  limit 0, so the walk never stops early. On the example chain (2, 1 and 0 transactions)
  it yields all 3 receipts, while the smallest boundary count that is at least 0 is 2.
\<close>

theorem walk_transactions_limit_zero_counterexample:
  "chain_from ex_node ex_chain \<and> latest ex_node = Some (hd ex_chain) \<and>
   walk_transactions ex_node (Some 0) =
     Some (Run [ex_receipt2, ex_receipt3, ex_receipt1] None) \<and>
   smallest_boundary_count 0 ex_chain = 2 \<and>
   int (length [ex_receipt2, ex_receipt3, ex_receipt1]) \<noteq> smallest_boundary_count 0 ex_chain"
  by code_simp


text \<open>
  On such a chain the limit 0 is no limit: every receipt is yielded, as with \<open>None\<close>.
\<close>

lemma blocks_walked_zero: "blocks_walked (Some 0) acc bs = length bs"
  by (induction bs arbitrary: acc) (auto simp: limit_reached_def)

lemma walk_transactions_limit_zero:
  assumes "chain_from nd bs" and "latest nd = Some (hd bs)"
    and "receipts_of nd bs = Inr rs"
  shows "walk_transactions nd (Some 0) = Some (Run rs None)"
proof -
  from assms(1) have "bs \<noteq> []" by (cases bs) auto
  with assms(1,2) have p: "pending nd WB_Start bs" by simp
  from walk_transactions_loop_pending [OF p assms(3), of "Some 0" 0] assms(3)
  show ?thesis
    unfolding walk_transactions_def by (simp add: blocks_walked_zero)
qed

section \<open>Properties of the argument coercer\<close>

lemma length_str_split: "length (str_split c s) = count_list s c + 1"
  by (induction s) (auto split: list.splits)

lemma str_split_no_sep: "c \<notin> set s \<Longrightarrow> str_split c s = [s]"
  by (induction s) auto

lemma str_split_parts: "p \<in> set (str_split c s) \<Longrightarrow> c \<notin> set p"
  by (induction s arbitrary: p) (auto split: if_splits list.splits)

lemma str_split_two: "str_split c s = [k, v] \<Longrightarrow> s = k @ c # v"
proof (induction s arbitrary: k)
  case Nil
  then show ?case by simp
next
  case (Cons x xs)
  show ?case
  proof (cases "x = c")
    case True
    with Cons.prems have "k = []" and one: "str_split c xs = [v]" by simp_all
    from one have "count_list xs c = 0"
      using length_str_split [of c xs] by simp
    then have "c \<notin> set xs" by (simp add: count_list_0_iff)
    then have "str_split c xs = [xs]" by (rule str_split_no_sep)
    with one True \<open>k = []\<close> show ?thesis by simp
  next
    case False
    with Cons.prems obtain k' where "str_split c xs = [k', v]" "k = x # k'"
      by (auto split: list.splits)
    with Cons.IH [of k'] show ?thesis by simp
  qed
qed

lemma bool_not_array: "\<not> endswith ''bool'' ''[]''"
  by (simp add: endswith_def)

lemma bool_not_uint: "\<not> startswith ''bool'' ''uint''"
  by (simp add: startswith_def)

lemma bool_not_byte: "\<not> startswith ''bool'' ''byte''"
  by (simp add: startswith_def)

text \<open>
  Claim C2, as amended. For an input whose declared type is \<open>bool\<close>, coercion yields
  true if and only if the raw value is exactly one of \<open>true\<close>, \<open>True\<close>, \<open>1\<close>, \<open>t\<close>,
  \<open>yes\<close>; every other raw value yields false.
\<close>

theorem coerce_bool_exact_tokens:
  assumes "input_for inps number key = Inr (inp, k)" and "type inp = ''bool''"
  shows "coerce json_loads inps number key val =
           Inr (k, PBool (val \<in> {''true'', ''True'', ''1'', ''t'', ''yes''}))"
  using assms by (simp add: coerce_def bind_err_def bool_not_array bool_not_uint)

theorem coerce_bool_exact_tokens_witness:
  "input_for ex_bool_inputs 1 ''ok'' = Inr (\<lparr>name = ''ok'', type = ''bool''\<rparr>, ''ok'') \<and>
   type \<lparr>name = ''ok'', type = ''bool''\<rparr> = ''bool'' \<and>
   coerce ex_json_loads ex_bool_inputs 1 ''ok'' ''True'' = Inr (''ok'', PBool True) \<and>
   coerce ex_json_loads ex_bool_inputs 1 ''ok'' ''Yes'' = Inr (''ok'', PBool False)"
proof -
  have i: "input_for ex_bool_inputs 1 ''ok'' = Inr (\<lparr>name = ''ok'', type = ''bool''\<rparr>, ''ok'')"
    by code_simp
  have t: "type \<lparr>name = ''ok'', type = ''bool''\<rparr> = ''bool''" by simp
  from coerce_bool_exact_tokens [OF i t, of ex_json_loads "''True''"]
    coerce_bool_exact_tokens [OF i t, of ex_json_loads "''Yes''"] i
  show ?thesis by simp
qed

text \<open>
  Claim C2 as stated fails: the comparison is with the five tokens as they are written,
  not case-insensitive. The raw value \<open>TRUE\<close> is \<open>true\<close> in lower case, and coercion
  yields false for it.
\<close>

theorem coerce_bool_uppercase_counterexample:
  "str_lower ''TRUE'' \<in> {''true'', ''1'', ''t'', ''yes''} \<and>
   coerce ex_json_loads ex_bool_inputs 1 ''ok'' ''TRUE'' = Inr (''ok'', PBool False)"
  by code_simp




text \<open>
  Claim C10. A token with two or more \<open>=\<close> makes \<open>convert\<close> raise (the split has more
  than two parts, which cannot be unpacked into key and value). A token with exactly one
  \<open>=\<close> is split into the key before it and the value after it, and a token with none is
  taken as a positional value; both go on to \<open>coerce\<close>.
\<close>

theorem convert_equals_signs:
  "(2 \<le> count_list value (CHR ''='') \<longrightarrow>
      convert json_loads inps number value = (number + 1, Inl ValueError)) \<and>
   (count_list value (CHR ''='') = 1 \<longrightarrow>
      (\<exists>key val. value = key @ ''='' @ val \<and>
         CHR ''='' \<notin> set key \<and> CHR ''='' \<notin> set val \<and>
         convert json_loads inps number value =
           (number + 1, bind_err (coerce json_loads inps (number + 1) key val) as_argument))) \<and>
   (count_list value (CHR ''='') = 0 \<longrightarrow>
      convert json_loads inps number value =
        (number + 1, bind_err (coerce json_loads inps (number + 1) [] value) as_argument))"
proof (intro conjI impI)
  assume two: "2 \<le> count_list value (CHR ''='')"
  then have "CHR ''='' \<in> set value"
    by (metis count_list_0_iff not_numeral_le_zero)
  moreover from two have "3 \<le> length (str_split (CHR ''='') value)"
    by (simp add: length_str_split)
  then have "\<nexists>key val. str_split (CHR ''='') value = [key, val]" by auto
  then have "(case str_split (CHR ''='') value of
               [key, val] \<Rightarrow> coerce json_loads inps (number + 1) key val
             | _ \<Rightarrow> Inl ValueError) = Inl ValueError"
    by (auto split: list.splits)
  ultimately show "convert json_loads inps number value = (number + 1, Inl ValueError)"
    by (simp add: convert_def bind_err_def Let_def)
next
  assume one: "count_list value (CHR ''='') = 1"
  then have mem: "CHR ''='' \<in> set value"
    by (metis count_list_0_iff zero_neq_one)
  from one have "length (str_split (CHR ''='') value) = 2"
    by (simp add: length_str_split)
  then obtain key val where kv: "str_split (CHR ''='') value = [key, val]"
    by (auto simp: length_Suc_conv numeral_2_eq_2)
  from kv have "value = key @ ''='' @ val" by (simp add: str_split_two)
  moreover from kv have "CHR ''='' \<notin> set key" "CHR ''='' \<notin> set val"
    using str_split_parts [of key "CHR ''=''" "value"] str_split_parts [of val "CHR ''=''" "value"]
    by simp_all
  moreover from kv mem have "convert json_loads inps number value =
      (number + 1, bind_err (coerce json_loads inps (number + 1) key val) as_argument)"
    by (simp add: convert_def Let_def)
  ultimately show "\<exists>key val. value = key @ ''='' @ val \<and>
         CHR ''='' \<notin> set key \<and> CHR ''='' \<notin> set val \<and>
         convert json_loads inps number value =
           (number + 1, bind_err (coerce json_loads inps (number + 1) key val) as_argument)"
    by blast
next
  assume "count_list value (CHR ''='') = 0"
  then have "CHR ''='' \<notin> set value" by (simp add: count_list_0_iff)
  then show "convert json_loads inps number value =
        (number + 1, bind_err (coerce json_loads inps (number + 1) [] value) as_argument)"
    by (simp add: convert_def Let_def)
qed

theorem convert_equals_signs_witness:
  "2 \<le> count_list ''xs=[1, 2]=3'' (CHR ''='') \<and>
   convert ex_json_loads ex_typed_inputs 0 ''xs=[1, 2]=3'' = (1, Inl ValueError) \<and>
   count_list ''xs=[1, 2]'' (CHR ''='') = 1 \<and>
   convert ex_json_loads ex_typed_inputs 0 ''xs=[1, 2]'' =
     (1, Inr (PDict [(PStr ''xs'', PList [PInt 1, PInt 2])])) \<and>
   count_list ''42'' (CHR ''='') = 0 \<and>
   convert ex_json_loads ex_typed_inputs 0 ''42'' = (1, Inr (PDict [(PStr ''n'', PInt 42)]))"
proof -
  have two: "2 \<le> count_list ''xs=[1, 2]=3'' (CHR ''='')" by code_simp
  have one: "count_list ''xs=[1, 2]'' (CHR ''='') = 1" by code_simp
  have none: "count_list ''42'' (CHR ''='') = 0" by code_simp
  have r1: "convert ex_json_loads ex_typed_inputs 0 ''xs=[1, 2]'' =
     (1, Inr (PDict [(PStr ''xs'', PList [PInt 1, PInt 2])]))" by code_simp
  have r0: "convert ex_json_loads ex_typed_inputs 0 ''42'' =
     (1, Inr (PDict [(PStr ''n'', PInt 42)]))" by code_simp
  from convert_equals_signs [of "''xs=[1, 2]=3''" ex_json_loads ex_typed_inputs 0]
    two one none r1 r0
  show ?thesis by simp
qed


section \<open>Properties of the method invocation\<close>



text \<open>
  Claim C5. When every needed input is given and no flag is given, the command sends a
  transaction if the declared mutability of the function is not \<open>view\<close>, and makes a
  call if it is \<open>view\<close>. When transact mode is asked for on a \<open>view\<close> function, the
  operator is asked to confirm first, and the transaction is sent only on a yes;
  otherwise the call is made.
\<close>

theorem dispatch_by_mutability:
  assumes "abi eth_abi fname = Inr m" and "missing_names m args = {}"
  shows "(stateMutability m \<noteq> ''view'' \<longrightarrow>
            (\<exists>evs out. call_command env eth_abi fname args None =
               (ContractTransact fname (args_positional args) (kwargs args) # evs, out))) \<and>
         (stateMutability m = ''view'' \<longrightarrow>
            (\<exists>evs out. call_command env eth_abi fname args None =
               (ContractCall fname (args_positional args) (kwargs args) # evs, out)) \<and>
            (\<exists>evs out. call_command env eth_abi fname args (Some True) =
               (Confirm ''Transacting a view. Are you sure?'' #
                (if confirm_answer env
                 then ContractTransact fname (args_positional args) (kwargs args)
                 else ContractCall fname (args_positional args) (kwargs args)) # evs, out)))"
proof -
  from assms(2) have c: "check m args = ([], True)"
    by (simp add: check_def)
  show ?thesis
    using assms(1) c
    by (auto simp: call_command_def cm_transact_def cm_call_def
          split: sum.splits prod.splits)
qed

theorem dispatch_by_mutability_witness:
  "abi ex_abi ''f'' = Inr (hd ex_abi) \<and>
   missing_names (hd ex_abi) [PDict [(PStr ''a'', PInt 1)], PDict [(PStr ''b'', PInt 2)]] = {} \<and>
   stateMutability (hd ex_abi) \<noteq> ''view'' \<and>
   fst (call_command ex_env ex_abi ''f''
          [PDict [(PStr ''a'', PInt 1)], PDict [(PStr ''b'', PInt 2)]] None) \<noteq> [] \<and>
   hd (fst (call_command ex_env ex_abi ''f''
          [PDict [(PStr ''a'', PInt 1)], PDict [(PStr ''b'', PInt 2)]] None)) =
     ContractTransact ''f'' [] [(PStr ''a'', PInt 1), (PStr ''b'', PInt 2)] \<and>
   abi ex_abi ''g'' = Inr (ex_abi ! 1) \<and>
   missing_names (ex_abi ! 1) [PBool True] \<noteq> {} \<and>
   missing_names (ex_abi ! 1) [PDict [(PStr ''ok'', PBool True)]] = {} \<and>
   stateMutability (ex_abi ! 1) = ''view'' \<and>
   take 2 (fst (call_command ex_env ex_abi ''g'' [PDict [(PStr ''ok'', PBool True)]]
                  (Some True))) =
     [Confirm ''Transacting a view. Are you sure?'',
      ContractCall ''g'' [] [(PStr ''ok'', PBool True)]]"
proof -
  have af: "abi ex_abi ''f'' = Inr (hd ex_abi)" by code_simp
  have mf: "missing_names (hd ex_abi)
      [PDict [(PStr ''a'', PInt 1)], PDict [(PStr ''b'', PInt 2)]] = {}" by code_simp
  have sf: "stateMutability (hd ex_abi) \<noteq> ''view''" by code_simp
  have kf: "kwargs [PDict [(PStr ''a'', PInt 1)], PDict [(PStr ''b'', PInt 2)]] =
      [(PStr ''a'', PInt 1), (PStr ''b'', PInt 2)]" by code_simp
  have pf: "args_positional [PDict [(PStr ''a'', PInt 1)], PDict [(PStr ''b'', PInt 2)]] = []"
    by code_simp
  have ag: "abi ex_abi ''g'' = Inr (ex_abi ! 1)" by code_simp
  have mg0: "missing_names (ex_abi ! 1) [PBool True] \<noteq> {}" by code_simp
  have mg: "missing_names (ex_abi ! 1) [PDict [(PStr ''ok'', PBool True)]] = {}"
    by code_simp
  have sg: "stateMutability (ex_abi ! 1) = ''view''" by code_simp
  have kg: "kwargs [PDict [(PStr ''ok'', PBool True)]] = [(PStr ''ok'', PBool True)]"
    by code_simp
  have pg: "args_positional [PDict [(PStr ''ok'', PBool True)]] = []" by code_simp
  have cg: "\<not> confirm_answer ex_env" by code_simp
  from dispatch_by_mutability [OF af mf, of ex_env] sf kf pf
  have 1: "fst (call_command ex_env ex_abi ''f''
          [PDict [(PStr ''a'', PInt 1)], PDict [(PStr ''b'', PInt 2)]] None) \<noteq> [] \<and>
     hd (fst (call_command ex_env ex_abi ''f''
          [PDict [(PStr ''a'', PInt 1)], PDict [(PStr ''b'', PInt 2)]] None)) =
     ContractTransact ''f'' [] [(PStr ''a'', PInt 1), (PStr ''b'', PInt 2)]"
    by auto
  from dispatch_by_mutability [OF ag mg, of ex_env] sg kg pg cg
  have 2: "take 2 (fst (call_command ex_env ex_abi ''g'' [PDict [(PStr ''ok'', PBool True)]]
                  (Some True))) =
     [Confirm ''Transacting a view. Are you sure?'',
      ContractCall ''g'' [] [(PStr ''ok'', PBool True)]]"
    by auto
  from af mf sf 1 ag mg0 mg sg 2 show ?thesis by blast
qed


section \<open>Properties of the address history\<close>

text \<open>
  Claim C7. \<open>history(A)\<close> keeps exactly the receipts of the walk whose contract address,
  sender or recipient is \<open>A\<close>, and \<open>take_contracts(history(A))\<close> yields exactly the
  contract addresses of those among them that have one, in the same order and with
  repetitions kept. (A contract address, when present, is not the empty text.)
\<close>

theorem history_take_contracts:
  assumes "walk_transactions nd limit = Some (Run txs e)"
    and "\<forall>tx\<in>set txs. contractAddress tx \<noteq> Some []"
  shows "history nd A limit =
           Some (Run (filter (\<lambda>tx. contractAddress tx = Some A \<or> from_address tx = A \<or>
                                   to_address tx = Some A) txs) e) \<and>
         take_contracts nd me (HistoryGen (history nd A limit)) =
           Some (Run (map contractAddress
                       (filter (\<lambda>tx. contractAddress tx \<noteq> None)
                          (filter (\<lambda>tx. contractAddress tx = Some A \<or> from_address tx = A \<or>
                                        to_address tx = Some A) txs))) e)"
proof -
  have h: "history nd A limit =
      Some (Run (filter (\<lambda>tx. contractAddress tx = Some A \<or> from_address tx = A \<or>
                              to_address tx = Some A) txs) e)"
    using assms(1) by (simp add: history_def eq_commute [of "Some A"] eq_commute [of A])
  have t: "truthy_address (contractAddress tx) = (contractAddress tx \<noteq> None)"
    if "tx \<in> set txs" for tx
    using assms(2) that by (auto simp: truthy_address_def split: option.splits)
  have f: "filter (\<lambda>tx. truthy_address (contractAddress tx)) (filter P txs) =
      filter (\<lambda>tx. contractAddress tx \<noteq> None) (filter P txs)" for P
    by (rule filter_cong) (auto simp: t)
  show ?thesis
    using h
    by (simp add: take_contracts_def filter_contract_def history_or_mine_def f
          del: filter_filter)
qed

theorem history_take_contracts_witness:
  "walk_transactions ex_node None = Some (Run [ex_receipt2, ex_receipt3, ex_receipt1] None) \<and>
   contractAddress ex_receipt2 \<noteq> Some [] \<and> contractAddress ex_receipt3 \<noteq> Some [] \<and>
   contractAddress ex_receipt1 \<noteq> Some [] \<and>
   history ex_node ''0xB2'' None = Some (Run [ex_receipt3, ex_receipt1] None) \<and>
   history ex_node ''0xA1'' None = Some (Run [ex_receipt2, ex_receipt3, ex_receipt1] None) \<and>
   take_contracts ex_node ''0xA1'' (HistoryGen (history ex_node ''0xA1'' None)) =
     Some (Run [Some ''0xC3''] None)"
proof -
  have w: "walk_transactions ex_node None =
      Some (Run [ex_receipt2, ex_receipt3, ex_receipt1] None)" by code_simp
  have a: "\<forall>tx\<in>set [ex_receipt2, ex_receipt3, ex_receipt1]. contractAddress tx \<noteq> Some []"
    by code_simp
  have b: "history ex_node ''0xB2'' None = Some (Run [ex_receipt3, ex_receipt1] None)"
    by code_simp
  have e1: "filter (\<lambda>tx. contractAddress tx = Some ''0xA1'' \<or> from_address tx = ''0xA1'' \<or>
                          to_address tx = Some ''0xA1'')
              [ex_receipt2, ex_receipt3, ex_receipt1] =
            [ex_receipt2, ex_receipt3, ex_receipt1]"
    by code_simp
  have e2: "map contractAddress
              (filter (\<lambda>tx. contractAddress tx \<noteq> None)
                 [ex_receipt2, ex_receipt3, ex_receipt1]) = [Some ''0xC3'']"
    by code_simp
  from history_take_contracts [OF w a, of "''0xA1''" "''0xA1''"]
  have "history ex_node ''0xA1'' None = Some (Run [ex_receipt2, ex_receipt3, ex_receipt1] None) \<and>
   take_contracts ex_node ''0xA1'' (HistoryGen (history ex_node ''0xA1'' None)) =
     Some (Run [Some ''0xC3''] None)"
    unfolding e1 e2 .
  moreover from a have "contractAddress ex_receipt2 \<noteq> Some [] \<and>
      contractAddress ex_receipt3 \<noteq> Some [] \<and> contractAddress ex_receipt1 \<noteq> Some []"
    by simp
  ultimately show ?thesis using w b by blast
qed

section \<open>Properties of moving the chain clock\<close>






section \<open>Properties of the response normalizer\<close>









lemma kept_refl: "kept P s s"
  by (simp add: kept_def)

lemma kept_trans: "kept P s s1 \<Longrightarrow> kept P s1 s2 \<Longrightarrow> kept P s s2"
  by (auto simp: kept_def)

lemma kept_weaken: "kept P s s' \<Longrightarrow> (\<And>a. Q a \<Longrightarrow> P a) \<Longrightarrow> kept Q s s'"
  by (auto simp: kept_def)

lemma kept_update: "kept (\<lambda>a. a \<noteq> d) s (s[d := ob])"
  by (simp add: kept_def)

lemma kept_after_alloc: "kept (\<lambda>a. a \<noteq> length s) (s @ [ob]) s' \<Longrightarrow> kept (\<lambda>a. True) s s'"
  by (auto simp: kept_def nth_append)

lemma store_dict_set_kept:
  "store_dict_set s d k v = Some (Inr s') \<Longrightarrow> kept (\<lambda>a. a \<noteq> d) s s'"
  by (auto simp: store_dict_set_def kept_update split: option.splits obj.splits)

lemma store_list_append_kept:
  "store_list_append s l x = Some s' \<Longrightarrow> kept (\<lambda>a. a \<noteq> l) s s'"
  by (auto simp: store_list_append_def kept_update split: option.splits obj.splits)

lemma make_serializable_in_kept:
  shows "make_serializable_in n s data = (s', res) \<Longrightarrow> kept (\<lambda>a. True) s s'"
    and "serializable_dict_loop n s data d size0 i = (s', res) \<Longrightarrow> kept (\<lambda>a. a \<noteq> d) s s'"
    and "serializable_list_loop n s data l i = (s', res) \<Longrightarrow> kept (\<lambda>a. a \<noteq> l) s s'"
proof (induction n s data and n s data d size0 i and n s data l i
    arbitrary: s' res and s' res and s' res
    rule: make_serializable_in_serializable_dict_loop_serializable_list_loop.induct)
  case (1 s data)
  then show ?case by (simp add: kept_refl)
next
  case (2 n s data)
  show ?case
  proof (cases "obj_at s data")
    case None
    with "2.prems" show ?thesis by (simp add: kept_refl)
  next
    case (Some ob)
    show ?thesis
    proof (cases ob)
      case (OList elems)
      with Some "2.prems"(1)
      have "serializable_list_loop n (s @ [OList []]) data (length s) 0 = (s', res)"
        by (simp add: alloc_def)
      from "2.IH"(1) [OF Some OList _ this]
      have "kept (\<lambda>a. a \<noteq> length s) (s @ [OList []]) s'" by (simp add: alloc_def)
      then show ?thesis by (rule kept_after_alloc)
    next
      case (ODict items)
      with Some "2.prems"(1)
      have "serializable_dict_loop n (s @ [ODict []]) data (length s) (length items) 0 = (s', res)"
        by (simp add: alloc_def)
      from "2.IH"(2) [OF Some ODict _ this]
      have "kept (\<lambda>a. a \<noteq> length s) (s @ [ODict []]) s'" by (simp add: alloc_def)
      then show ?thesis by (rule kept_after_alloc)
    next
      case (OAttributeDict items)
      with Some "2.prems"(1)
      have "serializable_dict_loop n (s @ [ODict []]) data (length s) (length items) 0 = (s', res)"
        by (simp add: alloc_def)
      from "2.IH"(3) [OF Some OAttributeDict _ this]
      have "kept (\<lambda>a. a \<noteq> length s) (s @ [ODict []]) s'" by (simp add: alloc_def)
      then show ?thesis by (rule kept_after_alloc)
    next
      case (OHexBytes bs)
      with Some "2.prems" show ?thesis
        by (auto simp: alloc_def kept_def nth_append)
    qed (use Some "2.prems" in \<open>auto simp: kept_refl\<close>)
  qed
next
  case (3 s data d size0 i)
  then show ?case by (simp add: kept_refl)
next
  case (4 n s data d size0 i)
  show ?case
  proof (cases "items_of s data")
    case None
    with "4.prems" show ?thesis by (simp add: kept_refl)
  next
    case (Some items)
    note it = this
    show ?thesis
    proof (cases "length items \<noteq> size0 \<or> i \<ge> length items")
      case True
      with Some "4.prems" show ?thesis by (auto simp: kept_refl split: if_splits)
    next
      case False
      then have c: "\<not> length items \<noteq> size0" "\<not> length items \<le> i" by simp_all
      obtain s1 r1 where m1: "make_serializable_in n s (fst (items ! i)) = (s1, r1)"
        by (cases "make_serializable_in n s (fst (items ! i))")
      from "4.IH"(1) [OF it c m1] have e1: "kept (\<lambda>a. a \<noteq> d) s s1"
        by (rule kept_weaken) simp
      show ?thesis
      proof (cases "\<exists>k. r1 = Some (Inr k)")
        case False
        with it c m1 "4.prems"(1) have "s' = s1"
          by (auto split: option.splits sum.splits)
        with e1 show ?thesis by simp
      next
        case True
        then obtain k where r1: "r1 = Some (Inr k)" by blast
        obtain s2 r2 where m2: "make_serializable_in n s1 (snd (items ! i)) = (s2, r2)"
          by (cases "make_serializable_in n s1 (snd (items ! i))")
        from "4.IH"(2) [OF it c m1 [symmetric] r1 refl m2]
        have "kept (\<lambda>a. a \<noteq> d) s1 s2" by (rule kept_weaken) simp
        with e1 have e12: "kept (\<lambda>a. a \<noteq> d) s s2" by (rule kept_trans)
        show ?thesis
        proof (cases "\<exists>v s3. r2 = Some (Inr v) \<and> store_dict_set s2 d k v = Some (Inr s3)")
          case False
          with it c m1 r1 m2 "4.prems"(1) have "s' = s2"
            by (auto split: option.splits sum.splits)
          with e12 show ?thesis by simp
        next
          case True
          then obtain v s3 where r2: "r2 = Some (Inr v)"
            and w: "store_dict_set s2 d k v = Some (Inr s3)" by blast
          from w have e3: "kept (\<lambda>a. a \<noteq> d) s2 s3" by (rule store_dict_set_kept)
          from it c m1 r1 m2 r2 w "4.prems"(1)
          have loop: "serializable_dict_loop n s3 data d size0 (i + 1) = (s', res)" by simp
          from "4.IH"(3) [OF it c m1 [symmetric] r1 refl m2 [symmetric] r2 refl w refl loop]
          have "kept (\<lambda>a. a \<noteq> d) s3 s'" .
          with e12 e3 show ?thesis by (blast intro: kept_trans)
        qed
      qed
    qed
  qed
next
  case (5 s data l i)
  then show ?case by (simp add: kept_refl)
next
  case (6 n s data l i)
  show ?case
  proof (cases "elems_of s data")
    case None
    with "6.prems" show ?thesis by (simp add: kept_refl)
  next
    case (Some elems)
    note el = this
    show ?thesis
    proof (cases "i \<ge> length elems")
      case True
      with Some "6.prems" show ?thesis by (auto simp: kept_refl)
    next
      case False
      obtain s1 r1 where m1: "make_serializable_in n s (elems ! i) = (s1, r1)"
        by (cases "make_serializable_in n s (elems ! i)")
      from "6.IH"(1) [OF el False m1] have e1: "kept (\<lambda>a. a \<noteq> l) s s1"
        by (rule kept_weaken) simp
      show ?thesis
      proof (cases "\<exists>x s2. r1 = Some (Inr x) \<and> store_list_append s1 l x = Some s2")
        case False
        with el \<open>\<not> length elems \<le> i\<close> m1 "6.prems"(1) have "s' = s1"
          by (auto split: option.splits sum.splits)
        with e1 show ?thesis by simp
      next
        case True
        then obtain x s2 where r1: "r1 = Some (Inr x)"
          and w: "store_list_append s1 l x = Some s2" by blast
        from w have e2: "kept (\<lambda>a. a \<noteq> l) s1 s2" by (rule store_list_append_kept)
        from el False m1 r1 w "6.prems"(1)
        have loop: "serializable_list_loop n s2 data l (i + 1) = (s', res)" by simp
        from "6.IH"(2) [OF el False m1 [symmetric] r1 refl w loop]
        have "kept (\<lambda>a. a \<noteq> l) s2 s'" .
        with e1 e2 show ?thesis by (blast intro: kept_trans)
      qed
    qed
  qed
qed


lemma repr_mono:
  shows "repr A s r x \<Longrightarrow> (\<forall>a. A a \<longrightarrow> B a) \<Longrightarrow> repr B s r x"
    and "repr_items A s items kvs \<Longrightarrow> (\<forall>a. A a \<longrightarrow> B a) \<Longrightarrow> repr_items B s items kvs"
    and "repr_list A s es xs \<Longrightarrow> (\<forall>a. A a \<longrightarrow> B a) \<Longrightarrow> repr_list B s es xs"
  by (induction A s r x and A s items kvs and A s es xs rule: repr_repr_items_repr_list.induct)
     (auto split: option.splits)

lemma obj_at_kept:
  "kept A s s' \<Longrightarrow> A r \<Longrightarrow> obj_at s r = Some ob \<Longrightarrow> obj_at s' r = Some ob"
  by (auto simp: kept_def obj_at_def split: if_splits)

lemma list_at_kept: "kept A s s' \<Longrightarrow> A r \<Longrightarrow> list_at s r = Some es \<Longrightarrow> list_at s' r = Some es"
  using obj_at_kept [of A s s' r]
  by (auto simp: list_at_def split: option.splits obj.splits)

lemma dict_at_kept: "kept A s s' \<Longrightarrow> A r \<Longrightarrow> dict_at s r = Some es \<Longrightarrow> dict_at s' r = Some es"
  using obj_at_kept [of A s s' r]
  by (auto simp: dict_at_def split: option.splits obj.splits)

lemma attributedict_at_kept:
  "kept A s s' \<Longrightarrow> A r \<Longrightarrow> attributedict_at s r = Some es \<Longrightarrow> attributedict_at s' r = Some es"
  using obj_at_kept [of A s s' r]
  by (auto simp: attributedict_at_def split: option.splits obj.splits)

lemma repr_stable:
  shows "repr A s r x \<Longrightarrow> kept A s s' \<Longrightarrow> repr A s' r x"
    and "repr_items A s items kvs \<Longrightarrow> kept A s s' \<Longrightarrow> repr_items A s' items kvs"
    and "repr_list A s es xs \<Longrightarrow> kept A s s' \<Longrightarrow> repr_list A s' es xs"
  by (induction A s r x and A s items kvs and A s es xs rule: repr_repr_items_repr_list.induct)
     (auto simp: obj_at_kept list_at_kept dict_at_kept attributedict_at_kept split: option.splits)

lemma repr_bound:
  shows "repr A s r x \<Longrightarrow> repr (\<lambda>a. A a \<and> a < length s) s r x"
    and "repr_items A s items kvs \<Longrightarrow> repr_items (\<lambda>a. A a \<and> a < length s) s items kvs"
    and "repr_list A s es xs \<Longrightarrow> repr_list (\<lambda>a. A a \<and> a < length s) s es xs"
  by (induction A s r x and A s items kvs and A s es xs rule: repr_repr_items_repr_list.induct)
     (auto simp: obj_at_def list_at_def dict_at_def attributedict_at_def
        split: option.splits if_splits)

lemma repr_atomic:
  "repr A s k a \<Longrightarrow> atomic a \<Longrightarrow> \<exists>ob. obj_at s k = Some ob \<and> scalar_of ob = Some a"
  by (cases a) (auto simp: atomic_def scalar_of_def)

lemma py_eq_refl: "py_eq a a"
  by (cases a) auto

lemma key_eq_repr:
  assumes "repr A s k' a'" "atomic a'" "repr A s k a" "atomic a"
  shows "key_eq s k' k = py_eq a' a"
proof -
  from repr_atomic [OF assms(1,2)] obtain ob' where
    o': "obj_at s k' = Some ob'" "scalar_of ob' = Some a'" by blast
  from repr_atomic [OF assms(3,4)] obtain ob where
    o: "obj_at s k = Some ob" "scalar_of ob = Some a" by blast
  show ?thesis
  proof (cases "k' = k")
    case True
    with o o' have "a' = a" by simp
    with True show ?thesis by (simp add: key_eq_def py_eq_refl)
  next
    case False
    with o o' show ?thesis by (simp add: key_eq_def)
  qed
qed

lemma entries_set_repr:
  "repr_items A s entries acc \<Longrightarrow> list_all (\<lambda>kv. atomic (fst kv)) acc \<Longrightarrow>
   repr A s k a \<Longrightarrow> atomic a \<Longrightarrow> repr A s v b \<Longrightarrow>
   repr_items A s (entries_set s entries k v) (dict_set acc a b)"
proof (induction acc arbitrary: entries)
  case Nil
  then show ?case by (cases entries) auto
next
  case (Cons kv acc)
  obtain a' b' where kv: "kv = (a', b')" by (cases kv)
  from Cons.prems(1) kv obtain k' v' rest where
    e: "entries = (k', v') # rest" and r: "repr A s k' a'" "repr A s v' b'"
      "repr_items A s rest acc"
    by (cases entries) auto
  from Cons.prems(2) kv have at: "atomic a'" "list_all (\<lambda>kv. atomic (fst kv)) acc" by simp_all
  from key_eq_repr [OF r(1) at(1) Cons.prems(3,4)]
  have eq: "key_eq s k' k = py_eq a' a" .
  show ?case
  proof (cases "py_eq a' a")
    case True
    with eq e kv r Cons.prems show ?thesis by simp
  next
    case False
    with eq e kv r Cons.IH [OF r(3) at(2) Cons.prems(3,4,5)] show ?thesis by simp
  qed
qed

lemma dict_set_atomic:
  "list_all (\<lambda>kv. atomic (fst kv)) acc \<Longrightarrow> atomic a \<Longrightarrow>
   list_all (\<lambda>kv. atomic (fst kv)) (dict_set acc a b)"
  by (induction acc) auto

lemma normalized_atomic:
  "make_serializable x = Inr y \<Longrightarrow> hashable y \<Longrightarrow> atomic y"
  by (cases x) (auto simp: hashable_def atomic_def split: sum.splits)

lemma items_of_kept:
  "kept A s s' \<Longrightarrow> A r \<Longrightarrow> items_of s r = Some items \<Longrightarrow> items_of s' r = Some items"
  using obj_at_kept [of A s s' r]
  by (auto simp: items_of_def split: option.splits obj.splits)

lemma elems_of_kept:
  "kept A s s' \<Longrightarrow> A r \<Longrightarrow> elems_of s r = Some es \<Longrightarrow> elems_of s' r = Some es"
  using obj_at_kept [of A s s' r]
  by (auto simp: elems_of_def split: option.splits obj.splits)

lemma store_dict_set_unhashable:
  "obj_at s d = Some (ODict entries) \<Longrightarrow> repr A s k a \<Longrightarrow> \<not> hashable a \<Longrightarrow>
   store_dict_set s d k v = Some (Inl TypeError)"
  by (cases a)
     (auto simp: hashable_def store_dict_set_def list_at_def dict_at_def
        split: option.splits obj.splits)

lemma store_dict_set_atomic:
  "obj_at s d = Some (ODict entries) \<Longrightarrow> repr A s k a \<Longrightarrow> atomic a \<Longrightarrow>
   store_dict_set s d k v = Some (Inr (s[d := ODict (entries_set s entries k v)]))"
  by (cases a) (auto simp: atomic_def store_dict_set_def)

lemma obj_at_update: "d < length s \<Longrightarrow> obj_at (s[d := ob]) d = Some ob"
  by (simp add: obj_at_def)

lemma repr_items_drop:
  "repr_items A s (drop i items) ((a, b) # kvs) \<Longrightarrow>
   i < length items \<and> repr A s (fst (items ! i)) a \<and> repr A s (snd (items ! i)) b \<and>
   repr_items A s (drop (Suc i) items) kvs"
proof -
  assume r: "repr_items A s (drop i items) ((a, b) # kvs)"
  then have "drop i items \<noteq> []" by (cases "drop i items") auto
  then have i: "i < length items" by simp
  then have "drop i items = items ! i # drop (Suc i) items"
    by (simp add: Cons_nth_drop_Suc)
  with r i show ?thesis by (cases "items ! i") auto
qed

lemma repr_list_drop:
  "repr_list A s (drop i es) (x # xs) \<Longrightarrow>
   i < length es \<and> repr A s (es ! i) x \<and> repr_list A s (drop (Suc i) es) xs"
proof -
  assume r: "repr_list A s (drop i es) (x # xs)"
  then have "drop i es \<noteq> []" by (cases "drop i es") auto
  then have i: "i < length es" by simp
  then have "drop i es = es ! i # drop (Suc i) es"
    by (simp add: Cons_nth_drop_Suc)
  with r i show ?thesis by auto
qed

lemma repr_items_Nil: "repr_items A s items [] \<Longrightarrow> items = []"
  by (cases items) auto

lemma repr_list_Nil: "repr_list A s es [] \<Longrightarrow> es = []"
  by (cases es) auto

text \<open>One step of the dict loop.\<close>

lemma dict_loop_step:
  assumes it: "items_of s dref = Some items" and dl: "dref < L0"
    and ri: "repr_items (\<lambda>a. a < L0) s (drop i items) ((key, value) # kvs)"
    and ld: "L0 \<le> d" and dlen: "d < length s"
    and od: "obj_at s d = Some (ODict entries)"
    and re: "repr_items (\<lambda>a. a < L0 \<or> d < a) s entries acc"
    and at: "list_all (\<lambda>kv. atomic (fst kv)) acc"
    and ih1: "agrees (\<lambda>a. a < L0 \<or> length s \<le> a) (make_serializable key)
                (make_serializable_in n s (fst (items ! i)))"
    and ih2: "\<And>s1 ka. make_serializable key = Inr ka \<Longrightarrow>
                repr (\<lambda>a. a < L0) s1 (snd (items ! i)) value \<Longrightarrow> L0 \<le> length s1 \<Longrightarrow>
                agrees (\<lambda>a. a < L0 \<or> length s1 \<le> a) (make_serializable value)
                  (make_serializable_in n s1 (snd (items ! i)))"
    and ih3: "\<And>s3 ka va entries'. make_serializable key = Inr ka \<Longrightarrow>
                make_serializable value = Inr va \<Longrightarrow> hashable ka \<Longrightarrow>
                items_of s3 dref = Some items \<Longrightarrow>
                repr_items (\<lambda>a. a < L0) s3 (drop (Suc i) items) kvs \<Longrightarrow>
                d < length s3 \<Longrightarrow> obj_at s3 d = Some (ODict entries') \<Longrightarrow>
                repr_items (\<lambda>a. a < L0 \<or> d < a) s3 entries' (dict_set acc ka va) \<Longrightarrow>
                list_all (\<lambda>kv. atomic (fst kv)) (dict_set acc ka va) \<Longrightarrow>
                agrees_items d (\<lambda>a. a < L0 \<or> d < a) (serializable_items (dict_set acc ka va) kvs)
                  (serializable_dict_loop n s3 dref d (length items) (Suc i))"
  shows "agrees_items d (\<lambda>a. a < L0 \<or> d < a) (serializable_items acc ((key, value) # kvs))
           (serializable_dict_loop (Suc n) s dref d (length items) i)"
proof -
  from repr_items_drop [OF ri] have i: "i < length items"
    and rk: "repr (\<lambda>a. a < L0) s (fst (items ! i)) key"
    and rv: "repr (\<lambda>a. a < L0) s (snd (items ! i)) value"
    and rr: "repr_items (\<lambda>a. a < L0) s (drop (Suc i) items) kvs" by simp_all
  obtain s1 r1 where m1: "make_serializable_in n s (fst (items ! i)) = (s1, r1)"
    by (cases "make_serializable_in n s (fst (items ! i))")
  from make_serializable_in_kept(1) [OF m1] have k1: "kept (\<lambda>a. True) s s1" .
  have unfold: "serializable_dict_loop (Suc n) s dref d (length items) i =
      (case (s1, r1) of
         (s1, Some (Inr k)) \<Rightarrow>
           (case make_serializable_in n s1 (snd (items ! i)) of
              (s2, Some (Inr v)) \<Rightarrow>
                (case store_dict_set s2 d k v of
                   None \<Rightarrow> (s2, None)
                 | Some (Inl e) \<Rightarrow> (s2, Some (Inl e))
                 | Some (Inr s3) \<Rightarrow> serializable_dict_loop n s3 dref d (length items) (i + 1))
            | (s2, stopped) \<Rightarrow> (s2, stopped))
       | (s1, stopped) \<Rightarrow> (s1, stopped))"
    using it i m1 by simp
  show ?thesis
  proof (cases "make_serializable key")
    case (Inl e)
    with ih1 m1 have "r1 = Some (Inl e)" by (simp add: agrees_def)
    with unfold Inl show ?thesis by (simp add: agrees_items_def)
  next
    case (Inr ka)
    with ih1 m1 obtain kr where r1: "r1 = Some (Inr kr)"
      and rkr: "repr (\<lambda>a. a < L0 \<or> length s \<le> a) s1 kr ka"
      by (auto simp: agrees_def)
    from k1 have l1: "length s \<le> length s1" by (simp add: kept_def)
    have rv1: "repr (\<lambda>a. a < L0) s1 (snd (items ! i)) value"
      using rv k1 by (rule repr_stable(1) [OF _ kept_weaken]) simp
    from dlen ld l1 have L1: "L0 \<le> length s1" by simp
    obtain s2 r2 where m2: "make_serializable_in n s1 (snd (items ! i)) = (s2, r2)"
      by (cases "make_serializable_in n s1 (snd (items ! i))")
    from make_serializable_in_kept(1) [OF m2] have k2: "kept (\<lambda>a. True) s1 s2" .
    from k1 k2 have k12: "kept (\<lambda>a. True) s s2" by (rule kept_trans)
    from ih2 [OF Inr rv1 L1] m2
    have a2: "agrees (\<lambda>a. a < L0 \<or> length s1 \<le> a) (make_serializable value) (s2, r2)" by simp
    show ?thesis
    proof (cases "make_serializable value")
      case (Inl e)
      with a2 have "r2 = Some (Inl e)" by (simp add: agrees_def)
      with unfold r1 m2 Inl \<open>make_serializable key = Inr ka\<close> show ?thesis
        by (simp add: agrees_items_def)
    next
      case (Inr va)
      with a2 obtain vr where r2: "r2 = Some (Inr vr)"
        and rvr: "repr (\<lambda>a. a < L0 \<or> length s1 \<le> a) s2 vr va"
        by (auto simp: agrees_def)
      have od2: "obj_at s2 d = Some (ODict entries)"
        using k12 _ od by (rule obj_at_kept) simp
      have rkr2: "repr (\<lambda>a. a < L0 \<or> d < a) s2 kr ka"
      proof -
        from rkr have "repr (\<lambda>a. a < L0 \<or> d < a) s1 kr ka"
          by (rule repr_mono(1)) (use dlen in auto)
        then show ?thesis using k2 by (rule repr_stable(1) [OF _ kept_weaken]) simp
      qed
      have rvr2: "repr (\<lambda>a. a < L0 \<or> d < a) s2 vr va"
        using rvr by (rule repr_mono(1)) (use dlen l1 in auto)
      show ?thesis
      proof (cases "hashable ka")
        case False
        from store_dict_set_unhashable [OF od2 rkr2 False]
        have "store_dict_set s2 d kr vr = Some (Inl TypeError)" .
        with unfold r1 m2 r2 False Inr \<open>make_serializable key = Inr ka\<close> show ?thesis
          by (simp add: agrees_items_def)
      next
        case True
        with \<open>make_serializable key = Inr ka\<close> have ak: "atomic ka"
          by (simp add: normalized_atomic)
        let ?s3 = "s2[d := ODict (entries_set s2 entries kr vr)]"
        from store_dict_set_atomic [OF od2 rkr2 ak]
        have w: "store_dict_set s2 d kr vr = Some (Inr ?s3)" .
        from k12 dlen have d2: "d < length s2" by (simp add: kept_def)
        have k3: "kept (\<lambda>a. a \<noteq> d) s2 ?s3" by (rule kept_update)
        have k03: "kept (\<lambda>a. a \<noteq> d) s ?s3"
        proof -
          have "kept (\<lambda>a. a \<noteq> d) s s2" by (rule kept_weaken [OF k12]) simp
          then show ?thesis using k3 by (rule kept_trans)
        qed
        have 1: "items_of ?s3 dref = Some items"
          using k03 _ it by (rule items_of_kept) (use dl ld in simp)
        have 2: "repr_items (\<lambda>a. a < L0) ?s3 (drop (Suc i) items) kvs"
          using rr by (rule repr_stable(2) [OF _ kept_weaken [OF k03]]) (use ld in simp)
        have 3: "obj_at ?s3 d = Some (ODict (entries_set s2 entries kr vr))"
          using d2 by (rule obj_at_update)
        have re2: "repr_items (\<lambda>a. a < L0 \<or> d < a) s2 entries acc"
          using re by (rule repr_stable(2) [OF _ kept_weaken [OF k12]]) simp
        from entries_set_repr [OF re2 at rkr2 ak rvr2]
        have "repr_items (\<lambda>a. a < L0 \<or> d < a) s2 (entries_set s2 entries kr vr)
            (dict_set acc ka va)" .
        then have 4: "repr_items (\<lambda>a. a < L0 \<or> d < a) ?s3 (entries_set s2 entries kr vr)
            (dict_set acc ka va)"
          by (rule repr_stable(2) [OF _ kept_weaken [OF k3]]) (use ld in auto)
        have 5: "list_all (\<lambda>kv. atomic (fst kv)) (dict_set acc ka va)"
          using at ak by (rule dict_set_atomic)
        from ih3 [OF \<open>make_serializable key = Inr ka\<close> Inr True 1 2 _ 3 4 5] d2
        have "agrees_items d (\<lambda>a. a < L0 \<or> d < a) (serializable_items (dict_set acc ka va) kvs)
            (serializable_dict_loop n ?s3 dref d (length items) (Suc i))" by simp
        with unfold r1 m2 r2 w True Inr \<open>make_serializable key = Inr ka\<close> show ?thesis
          by simp
      qed
    qed
  qed
qed

lemma store_list_append_ok:
  "obj_at s l = Some (OList built) \<Longrightarrow>
   store_list_append s l x = Some (s[l := OList (built @ [x])])"
  by (simp add: store_list_append_def)

lemma list_loop_step:
  assumes el: "elems_of s lref = Some elems" and ll: "lref < L0"
    and rl: "repr_list (\<lambda>a. a < L0) s (drop i elems) (x # xs)"
    and ld: "L0 \<le> l" and llen: "l < length s"
    and ol: "obj_at s l = Some (OList built)"
    and ih1: "agrees (\<lambda>a. a < L0 \<or> length s \<le> a) (make_serializable x)
                (make_serializable_in n s (elems ! i))"
    and ih2: "\<And>s2 y built2. make_serializable x = Inr y \<Longrightarrow>
                elems_of s2 lref = Some elems \<Longrightarrow>
                repr_list (\<lambda>a. a < L0) s2 (drop (Suc i) elems) xs \<Longrightarrow>
                l < length s2 \<Longrightarrow> obj_at s2 l = Some (OList built2) \<Longrightarrow>
                agrees_elems l built2 (\<lambda>a. a < L0 \<or> l < a) (serializable_elems xs)
                  (serializable_list_loop n s2 lref l (Suc i))"
  shows "agrees_elems l built (\<lambda>a. a < L0 \<or> l < a) (serializable_elems (x # xs))
           (serializable_list_loop (Suc n) s lref l i)"
proof -
  from repr_list_drop [OF rl] have i: "i < length elems"
    and rx: "repr (\<lambda>a. a < L0) s (elems ! i) x"
    and rr: "repr_list (\<lambda>a. a < L0) s (drop (Suc i) elems) xs" by simp_all
  obtain s1 r1 where m1: "make_serializable_in n s (elems ! i) = (s1, r1)"
    by (cases "make_serializable_in n s (elems ! i)")
  from make_serializable_in_kept(1) [OF m1] have k1: "kept (\<lambda>a. True) s s1" .
  have unfold: "serializable_list_loop (Suc n) s lref l i =
      (case (s1, r1) of
         (s1, Some (Inr x)) \<Rightarrow>
           (case store_list_append s1 l x of
              None \<Rightarrow> (s1, None)
            | Some s2 \<Rightarrow> serializable_list_loop n s2 lref l (i + 1))
       | (s1, stopped) \<Rightarrow> (s1, stopped))"
    using el i m1 by simp
  show ?thesis
  proof (cases "make_serializable x")
    case (Inl e)
    with ih1 m1 have "r1 = Some (Inl e)" by (simp add: agrees_def)
    with unfold Inl show ?thesis by (simp add: agrees_elems_def)
  next
    case (Inr y)
    with ih1 m1 obtain er where r1: "r1 = Some (Inr er)"
      and rer: "repr (\<lambda>a. a < L0 \<or> length s \<le> a) s1 er y"
      by (auto simp: agrees_def)
    have ol1: "obj_at s1 l = Some (OList built)"
      using k1 _ ol by (rule obj_at_kept) simp
    let ?s2 = "s1[l := OList (built @ [er])]"
    from store_list_append_ok [OF ol1]
    have w: "store_list_append s1 l er = Some ?s2" .
    from k1 llen have l1: "l < length s1" by (simp add: kept_def)
    have k2: "kept (\<lambda>a. a \<noteq> l) s1 ?s2" by (rule kept_update)
    have k02: "kept (\<lambda>a. a \<noteq> l) s ?s2"
    proof -
      have "kept (\<lambda>a. a \<noteq> l) s s1" by (rule kept_weaken [OF k1]) simp
      then show ?thesis using k2 by (rule kept_trans)
    qed
    have 1: "elems_of ?s2 lref = Some elems"
      using k02 _ el by (rule elems_of_kept) (use ll ld in simp)
    have 2: "repr_list (\<lambda>a. a < L0) ?s2 (drop (Suc i) elems) xs"
      using rr by (rule repr_stable(3) [OF _ kept_weaken [OF k02]]) (use ld in simp)
    have 3: "obj_at ?s2 l = Some (OList (built @ [er]))"
      using l1 by (rule obj_at_update)
    from ih2 [OF Inr 1 2 _ 3] l1
    have a: "agrees_elems l (built @ [er]) (\<lambda>a. a < L0 \<or> l < a) (serializable_elems xs)
        (serializable_list_loop n ?s2 lref l (Suc i))" by simp
    obtain s' res where run: "serializable_list_loop n ?s2 lref l (Suc i) = (s', res)"
      by (cases "serializable_list_loop n ?s2 lref l (Suc i)")
    from make_serializable_in_kept(3) [OF run] have k3: "kept (\<lambda>a. a \<noteq> l) ?s2 s'" .
    have rer': "repr (\<lambda>a. a < L0 \<or> l < a) s' er y"
    proof -
      from rer have "repr (\<lambda>a. a < L0 \<or> l < a) s1 er y"
        by (rule repr_mono(1)) (use llen in auto)
      then have "repr (\<lambda>a. a < L0 \<or> l < a) ?s2 er y"
        by (rule repr_stable(1) [OF _ kept_weaken [OF k2]]) (use ld in auto)
      then show ?thesis
        by (rule repr_stable(1) [OF _ kept_weaken [OF k3]]) (use ld in auto)
    qed
    show ?thesis
    proof (cases "serializable_elems xs")
      case (Inl e)
      with a run have "res = Some (Inl e)" by (simp add: agrees_elems_def)
      with unfold r1 w run Inl Inr show ?thesis by (simp add: agrees_elems_def)
    next
      case (Inr ys)
      with a run obtain new where res: "res = Some (Inr l)"
        and o: "obj_at s' l = Some (OList ((built @ [er]) @ new))"
        and rn: "repr_list (\<lambda>a. a < L0 \<or> l < a) s' new ys"
        by (auto simp: agrees_elems_def)
      from o have "obj_at s' l = Some (OList (built @ er # new))" by simp
      moreover from rer' rn have "repr_list (\<lambda>a. a < L0 \<or> l < a) s' (er # new) (y # ys)"
        by simp
      ultimately show ?thesis
        using unfold r1 w run res Inr \<open>make_serializable x = Inr y\<close>
        by (auto simp: agrees_elems_def)
    qed
  qed
qed

lemma kept_append: "kept P s (s @ xs)"
  by (simp add: kept_def nth_append)

lemma obj_at_append_new: "obj_at (s @ [ob]) (length s) = Some ob"
  by (simp add: obj_at_def)

lemma repr_dict_D:
  "repr A s r (PDict kvs) \<Longrightarrow>
   \<exists>items. A r \<and> obj_at s r = Some (ODict items) \<and> repr_items A s items kvs"
  by (auto simp: dict_at_def split: option.splits obj.splits)

lemma repr_attributedict_D:
  "repr A s r (PAttributeDict kvs) \<Longrightarrow>
   \<exists>items. A r \<and> obj_at s r = Some (OAttributeDict items) \<and> repr_items A s items kvs"
  by (auto simp: attributedict_at_def split: option.splits obj.splits)

lemma repr_list_D:
  "repr A s r (PList xs) \<Longrightarrow>
   \<exists>es. A r \<and> obj_at s r = Some (OList es) \<and> repr_list A s es xs"
  by (auto simp: list_at_def split: option.splits obj.splits)

lemma agrees_dict_start:
  assumes o: "obj_at s data = Some ob" and ob: "ob = ODict items \<or> ob = OAttributeDict items"
    and dl: "data < L0" and r: "repr_items (\<lambda>a. a < L0) s items kvs" and L: "L0 \<le> length s"
    and ih: "\<And>s1. items_of s1 data = Some items \<Longrightarrow>
               repr_items (\<lambda>a. a < L0) s1 items kvs \<Longrightarrow>
               length s < length s1 \<Longrightarrow> obj_at s1 (length s) = Some (ODict []) \<Longrightarrow>
               agrees (\<lambda>a. a < L0 \<or> length s \<le> a) pure
                 (serializable_dict_loop n s1 data (length s) (length items) 0)"
  shows "agrees (\<lambda>a. a < L0 \<or> length s \<le> a) pure (make_serializable_in (Suc n) s data)"
proof -
  let ?s1 = "s @ [ODict []]"
  from o ob have run: "make_serializable_in (Suc n) s data =
      serializable_dict_loop n ?s1 data (length s) (length items) 0"
    by (auto simp: alloc_def)
  have k: "kept (\<lambda>a. True) s ?s1" by (rule kept_append)
  from o ob have "items_of s data = Some items" by (auto simp: items_of_def)
  then have 1: "items_of ?s1 data = Some items"
    using k by (auto intro: items_of_kept)
  have 2: "repr_items (\<lambda>a. a < L0) ?s1 items kvs"
    using r by (rule repr_stable(2) [OF _ kept_weaken [OF k]]) simp
  from ih [OF 1 2] run show ?thesis by (simp add: obj_at_append_new)
qed

lemma make_serializable_in_agrees:
  shows "repr (\<lambda>a. a < L0) s data x \<Longrightarrow> L0 \<le> length s \<Longrightarrow> cost x \<le> n \<Longrightarrow>
           agrees (\<lambda>a. a < L0 \<or> length s \<le> a) (make_serializable x)
             (make_serializable_in n s data)"
    and "items_of s dref = Some items \<Longrightarrow> dref < L0 \<Longrightarrow>
           repr_items (\<lambda>a. a < L0) s items kvs \<Longrightarrow> L0 \<le> d \<Longrightarrow> d < length s \<Longrightarrow>
           obj_at s d = Some (ODict []) \<Longrightarrow> cost_items kvs \<le> n \<Longrightarrow>
           agrees (\<lambda>a. a < L0 \<or> d \<le> a) (serializable_dict kvs)
             (serializable_dict_loop n s dref d (length items) 0)"
    and "items_of s dref = Some items \<Longrightarrow> dref < L0 \<Longrightarrow>
           repr_items (\<lambda>a. a < L0) s (drop i items) kvs2 \<Longrightarrow> L0 \<le> d \<Longrightarrow> d < length s \<Longrightarrow>
           obj_at s d = Some (ODict entries) \<Longrightarrow>
           repr_items (\<lambda>a. a < L0 \<or> d < a) s entries acc \<Longrightarrow>
           list_all (\<lambda>kv. atomic (fst kv)) acc \<Longrightarrow> cost_items kvs2 \<le> n \<Longrightarrow>
           agrees_items d (\<lambda>a. a < L0 \<or> d < a) (serializable_items acc kvs2)
             (serializable_dict_loop n s dref d (length items) i)"
    and "elems_of s lref = Some elems \<Longrightarrow> lref < L0 \<Longrightarrow>
           repr_list (\<lambda>a. a < L0) s (drop i elems) xs \<Longrightarrow> L0 \<le> l \<Longrightarrow> l < length s \<Longrightarrow>
           obj_at s l = Some (OList built) \<Longrightarrow> cost_elems xs \<le> n \<Longrightarrow>
           agrees_elems l built (\<lambda>a. a < L0 \<or> l < a) (serializable_elems xs)
             (serializable_list_loop n s lref l i)"
proof (induction x and kvs and acc kvs2 and xs
    arbitrary: n s data L0 and n s dref items d L0 and n s dref items i d entries L0
      and n s lref elems i l built L0
    rule: make_serializable_serializable_dict_serializable_items_serializable_elems.induct)
  case (1 kvs)
  from repr_attributedict_D [OF "1.prems"(1)] obtain items where
    d: "data < L0" "obj_at s data = Some (OAttributeDict items)"
      "repr_items (\<lambda>a. a < L0) s items kvs" by blast
  from "1.prems"(3) obtain n' where n: "n = Suc n'" "cost_items kvs \<le> n'"
    by (cases n) auto
  have "agrees (\<lambda>a. a < L0 \<or> length s \<le> a) (serializable_dict kvs)
      (make_serializable_in (Suc n') s data)"
    using d(2) _ d(1) d(3) "1.prems"(2)
  proof (rule agrees_dict_start)
    show "OAttributeDict items = ODict items \<or> OAttributeDict items = OAttributeDict items"
      by simp
    fix s1
    assume "items_of s1 data = Some items" "repr_items (\<lambda>a. a < L0) s1 items kvs"
      "length s < length s1" "obj_at s1 (length s) = Some (ODict [])"
    then show "agrees (\<lambda>a. a < L0 \<or> length s \<le> a) (serializable_dict kvs)
        (serializable_dict_loop n' s1 data (length s) (length items) 0)"
      using "1.IH" d(1) "1.prems"(2) n(2) by blast
  qed
  with n show ?case by simp
next
  case (2 kvs)
  from repr_dict_D [OF "2.prems"(1)] obtain items where
    d: "data < L0" "obj_at s data = Some (ODict items)"
      "repr_items (\<lambda>a. a < L0) s items kvs" by blast
  from "2.prems"(3) obtain n' where n: "n = Suc n'" "cost_items kvs \<le> n'"
    by (cases n) auto
  have "agrees (\<lambda>a. a < L0 \<or> length s \<le> a) (serializable_dict kvs)
      (make_serializable_in (Suc n') s data)"
    using d(2) _ d(1) d(3) "2.prems"(2)
  proof (rule agrees_dict_start)
    show "ODict items = ODict items \<or> ODict items = OAttributeDict items" by simp
    fix s1
    assume "items_of s1 data = Some items" "repr_items (\<lambda>a. a < L0) s1 items kvs"
      "length s < length s1" "obj_at s1 (length s) = Some (ODict [])"
    then show "agrees (\<lambda>a. a < L0 \<or> length s \<le> a) (serializable_dict kvs)
        (serializable_dict_loop n' s1 data (length s) (length items) 0)"
      using "2.IH" d(1) "2.prems"(2) n(2) by blast
  qed
  with n show ?case by simp
next
  case (3 bs)
  from "3.prems"(3) obtain n' where n: "n = Suc n'" by (cases n) auto
  from "3.prems"(1) have "obj_at s data = Some (OHexBytes bs)" by simp
  with n show ?case
    by (simp add: agrees_def alloc_def obj_at_append_new)
next
  case (4 xs)
  from repr_list_D [OF "4.prems"(1)] obtain es where
    d: "data < L0" "obj_at s data = Some (OList es)"
      "repr_list (\<lambda>a. a < L0) s es xs" by blast
  from "4.prems"(3) obtain n' where n: "n = Suc n'" "cost_elems xs \<le> n'"
    by (cases n) auto
  let ?s1 = "s @ [OList []]"
  from d(2) have run: "make_serializable_in (Suc n') s data =
      serializable_list_loop n' ?s1 data (length s) 0"
    by (simp add: alloc_def)
  have k: "kept (\<lambda>a. True) s ?s1" by (rule kept_append)
  from d(2) have "elems_of s data = Some es" by (simp add: elems_of_def)
  then have 1: "elems_of ?s1 data = Some es"
    using k by (auto intro: elems_of_kept)
  have 2: "repr_list (\<lambda>a. a < L0) ?s1 (drop 0 es) xs"
    using d(3) by (simp add: repr_stable(3) [OF _ kept_weaken [OF k]])
  from "4.IH" [OF 1 d(1) 2 "4.prems"(2) _ obj_at_append_new n(2)]
  have a: "agrees_elems (length s) [] (\<lambda>a. a < L0 \<or> length s < a) (serializable_elems xs)
      (serializable_list_loop n' ?s1 data (length s) 0)" by simp
  obtain s' res where r: "serializable_list_loop n' ?s1 data (length s) 0 = (s', res)"
    by (cases "serializable_list_loop n' ?s1 data (length s) 0")
  show ?case
  proof (cases "serializable_elems xs")
    case (Inl e)
    with a r run n show ?thesis by (simp add: agrees_elems_def agrees_def)
  next
    case (Inr ys)
    with a r obtain new where res: "res = Some (Inr (length s))"
      and o: "obj_at s' (length s) = Some (OList new)"
      and rn: "repr_list (\<lambda>a. a < L0 \<or> length s < a) s' new ys"
      by (auto simp: agrees_elems_def)
    from rn have "repr_list (\<lambda>a. a < L0 \<or> length s \<le> a) s' new ys"
      by (rule repr_mono(3)) auto
    with o have "repr (\<lambda>a. a < L0 \<or> length s \<le> a) s' (length s) (PList ys)"
      by (simp add: list_at_def)
    with r run n res Inr show ?thesis by (simp add: agrees_def)
  qed
next
  case 5
  from "5.prems"(3) obtain n' where n: "n = Suc n'" by (cases n) auto
  from "5.prems"(1) n show ?case by (simp add: agrees_def)
next
  case (6 b)
  from "6.prems"(3) obtain n' where n: "n = Suc n'" by (cases n) auto
  from "6.prems"(1) n show ?case by (simp add: agrees_def)
next
  case (7 i)
  from "7.prems"(3) obtain n' where n: "n = Suc n'" by (cases n) auto
  from "7.prems"(1) n show ?case by (simp add: agrees_def)
next
  case (8 t)
  from "8.prems"(3) obtain n' where n: "n = Suc n'" by (cases n) auto
  from "8.prems"(1) n show ?case by (simp add: agrees_def)
next
  case (9 bs)
  from "9.prems"(3) obtain n' where n: "n = Suc n'" by (cases n) auto
  from "9.prems"(1) n show ?case by (simp add: agrees_def)
next
  case (10 m)
  from "10.prems"(3) obtain n' where n: "n = Suc n'" by (cases n) auto
  from "10.prems"(1) n show ?case by (simp add: agrees_def)
next
  case (11 kvs)
  from "11.prems"(3) have r0: "repr_items (\<lambda>a. a < L0) s (drop 0 items) kvs" by simp
  from "11.IH" [OF "11.prems"(1,2) r0 "11.prems"(4,5,6) _ _ "11.prems"(7)]
  have a: "agrees_items d (\<lambda>a. a < L0 \<or> d < a) (serializable_items [] kvs)
      (serializable_dict_loop n s dref d (length items) 0)" by simp
  obtain s' res where r: "serializable_dict_loop n s dref d (length items) 0 = (s', res)"
    by (cases "serializable_dict_loop n s dref d (length items) 0")
  show ?case
  proof (cases "serializable_items [] kvs")
    case (Inl e)
    with a r show ?thesis by (simp add: agrees_items_def agrees_def)
  next
    case (Inr final)
    with a r obtain entries where res: "res = Some (Inr d)"
      and o: "obj_at s' d = Some (ODict entries)"
      and re: "repr_items (\<lambda>a. a < L0 \<or> d < a) s' entries final"
      by (auto simp: agrees_items_def)
    from re have "repr_items (\<lambda>a. a < L0 \<or> d \<le> a) s' entries final"
      by (rule repr_mono(2)) auto
    with o have "repr (\<lambda>a. a < L0 \<or> d \<le> a) s' d (PDict final)"
      by (simp add: dict_at_def)
    with r res Inr show ?thesis by (simp add: agrees_def)
  qed
next
  case (12 acc)
  from "12.prems"(9) obtain n' where n: "n = Suc n'" by (cases n) auto
  from "12.prems"(3) have "drop i items = []" by (rule repr_items_Nil)
  then have "length items \<le> i" by simp
  with "12.prems" n show ?case by (auto simp: agrees_items_def)
next
  case (13 acc key "value" kvs)
  from "13.prems"(9) obtain n' where n: "n = Suc n'"
    and c: "cost key \<le> n'" "cost value \<le> n'" "cost_items kvs \<le> n'"
    by (cases n) auto
  from repr_items_drop [OF "13.prems"(3)]
  have rk: "repr (\<lambda>a. a < L0) s (fst (items ! i)) key" by simp
  from "13.prems"(4,5) have L: "L0 \<le> length s" by simp
  have "agrees_items d (\<lambda>a. a < L0 \<or> d < a) (serializable_items acc ((key, value) # kvs))
           (serializable_dict_loop (Suc n') s dref d (length items) i)"
    using "13.prems"(1-8)
  proof (rule dict_loop_step)
    show "agrees (\<lambda>a. a < L0 \<or> length s \<le> a) (make_serializable key)
        (make_serializable_in n' s (fst (items ! i)))"
      using rk L c(1) by (rule "13.IH"(1))
  next
    fix s1 ka
    assume "make_serializable key = Inr ka"
      "repr (\<lambda>a. a < L0) s1 (snd (items ! i)) value" "L0 \<le> length s1"
    then show "agrees (\<lambda>a. a < L0 \<or> length s1 \<le> a) (make_serializable value)
        (make_serializable_in n' s1 (snd (items ! i)))"
      using c(2) by (rule "13.IH"(2))
  next
    fix s3 ka va entries'
    assume "make_serializable key = Inr ka" "make_serializable value = Inr va" "hashable ka"
      "items_of s3 dref = Some items"
      "repr_items (\<lambda>a. a < L0) s3 (drop (Suc i) items) kvs"
      "d < length s3" "obj_at s3 d = Some (ODict entries')"
      "repr_items (\<lambda>a. a < L0 \<or> d < a) s3 entries' (dict_set acc ka va)"
      "list_all (\<lambda>kv. atomic (fst kv)) (dict_set acc ka va)"
    then show "agrees_items d (\<lambda>a. a < L0 \<or> d < a)
        (serializable_items (dict_set acc ka va) kvs)
        (serializable_dict_loop n' s3 dref d (length items) (Suc i))"
      using "13.IH"(3) "13.prems"(2,4) c(3) by blast
  qed
  with n show ?case by simp
next
  case 14
  from "14.prems"(7) obtain n' where n: "n = Suc n'" by (cases n) auto
  from "14.prems"(3) have "drop i elems = []" by (rule repr_list_Nil)
  then have "length elems \<le> i" by simp
  with "14.prems" n show ?case by (auto simp: agrees_elems_def)
next
  case (15 x xs)
  from "15.prems"(7) obtain n' where n: "n = Suc n'"
    and c: "cost x \<le> n'" "cost_elems xs \<le> n'"
    by (cases n) auto
  from repr_list_drop [OF "15.prems"(3)]
  have rx: "repr (\<lambda>a. a < L0) s (elems ! i) x" by simp
  from "15.prems"(4,5) have L: "L0 \<le> length s" by simp
  have "agrees_elems l built (\<lambda>a. a < L0 \<or> l < a) (serializable_elems (x # xs))
           (serializable_list_loop (Suc n') s lref l i)"
    using "15.prems"(1-6)
  proof (rule list_loop_step)
    show "agrees (\<lambda>a. a < L0 \<or> length s \<le> a) (make_serializable x)
        (make_serializable_in n' s (elems ! i))"
      using rx L c(1) by (rule "15.IH"(1))
  next
    fix s2 y built2
    assume "make_serializable x = Inr y" "elems_of s2 lref = Some elems"
      "repr_list (\<lambda>a. a < L0) s2 (drop (Suc i) elems) xs"
      "l < length s2" "obj_at s2 l = Some (OList built2)"
    then show "agrees_elems l built2 (\<lambda>a. a < L0 \<or> l < a) (serializable_elems xs)
        (serializable_list_loop n' s2 lref l (Suc i))"
      using "15.IH"(2) "15.prems"(2,4) c(2) by blast
  qed
  with n show ?case by simp
qed

text \<open>
  The two forms of \<open>make_serializable\<close> agree: when the object \<open>data\<close> stands for the
  value \<open>x\<close>, the run in the store, given enough steps, ends as the function on values
  does: with the same exception, or with an object that stands for the value returned.
\<close>

theorem make_serializable_in_refines:
  assumes "repr (\<lambda>a. True) s data x" and "cost x \<le> n"
  shows "\<exists>s' res. make_serializable_in n s data = (s', Some res) \<and>
           (case make_serializable x of
              Inl e \<Rightarrow> res = Inl e
            | Inr y \<Rightarrow> (\<exists>r. res = Inr r \<and> repr (\<lambda>a. True) s' r y))"
proof -
  from repr_bound(1) [OF assms(1)] have "repr (\<lambda>a. a < length s) s data x" by simp
  from make_serializable_in_agrees(1) [OF this order_refl assms(2)]
  have a: "agrees (\<lambda>a. a < length s \<or> length s \<le> a) (make_serializable x)
      (make_serializable_in n s data)" .
  obtain s' r where run: "make_serializable_in n s data = (s', r)"
    by (cases "make_serializable_in n s data")
  show ?thesis
  proof (cases "make_serializable x")
    case (Inl e)
    with a run show ?thesis by (simp add: agrees_def)
  next
    case (Inr y)
    with a run obtain r' where "r = Some (Inr r')"
      "repr (\<lambda>a. a < length s \<or> length s \<le> a) s' r' y"
      by (auto simp: agrees_def)
    moreover from this(2) have "repr (\<lambda>a. True) s' r' y"
      by (rule repr_mono(1)) simp
    ultimately show ?thesis using run Inr by simp
  qed
qed



end
